theory Spec2Isabelle
  imports Complex_Main "HOL-Library.Word"
begin

section \<open>Collaborators of the planners\<close>

text \<open>
  The planners of \<^verbatim>\<open>Planner/RRT/RRT.cpp\<close> and
  \<^verbatim>\<open>Planner/InformedRRTStar/InformedRRTStar.cpp\<close> work on the classes
  \<^verbatim>\<open>State\<close>, \<^verbatim>\<open>Constraint\<close> and \<^verbatim>\<open>PlannerBase\<close>, which are declared
  elsewhere. A \<^verbatim>\<open>double\<close> is modelled as a real number, so rounding, infinities and
  NaN are outside the model; \<^verbatim>\<open>std::numeric_limits<double>::max()\<close> is the real number
  it denotes. The one exception is the loop variable of \<^verbatim>\<open>RRT::checkCollision\<close>, whose
  rounded additions decide how often the loop runs: they are modelled with the rounding
  below.
\<close>

type_synonym State = "real list"

text \<open>
  Modelled from the spec: the \<^verbatim>\<open>State\<close> class (its source is not part of the two
  planner files). The spec describes it as an ordered sequence of real coordinates
  (\<^verbatim>\<open>vals\<close>) with \<^verbatim>\<open>a+b\<close>, \<^verbatim>\<open>a-b\<close>, \<^verbatim>\<open>a*s\<close>, the Euclidean distance
  \<^verbatim>\<open>dist(a,b) = ||a-b||\<close> and exact equality. What the class does with operands of
  different dimension is not described; the operations below work on the common prefix.
\<close>

definition state_add :: "State \<Rightarrow> State \<Rightarrow> State" where
  "state_add a b = map2 (\<lambda>x y. x + y) a b"

definition state_sub :: "State \<Rightarrow> State \<Rightarrow> State" where
  "state_sub a b = map2 (\<lambda>x y. x - y) a b"

definition state_mul :: "State \<Rightarrow> real \<Rightarrow> State" where
  "state_mul a s = map (\<lambda>x. x * s) a"

definition distanceFrom :: "State \<Rightarrow> State \<Rightarrow> real" where
  "distanceFrom a b = sqrt (sum_list (map2 (\<lambda>x y. (x - y)\<^sup>2) a b))"

text \<open>
  Modelled from the spec: the \<^verbatim>\<open>Constraint\<close> collaborator, reduced to what the planners
  call: \<^verbatim>\<open>space.getDim()\<close>, the point classification and the segment test. The bounds
  of the space only parameterise the random number generators, whose outputs are inputs
  of the model.
\<close>

datatype ConstraintType = FREE | NOENTRY

record Constraint =
  getDim :: nat
  checkConstraintType :: "State \<Rightarrow> ConstraintType"
  checkCollision :: "State \<Rightarrow> State \<Rightarrow> bool"

text \<open>The two exception classes the planner files throw.\<close>

datatype error = RuntimeError | InvalidArgument

definition DBL_MAX :: real where
  "DBL_MAX = (2 ^ 53 - 1) * 2 ^ 971"

text \<open>\<^verbatim>\<open>std::atan2\<close> on real numbers (with \<^verbatim>\<open>atan2(0, 0) = 0\<close>).\<close>

definition atan2 :: "real \<Rightarrow> real \<Rightarrow> real" where
  "atan2 y x =
     (if 0 < x then arctan (y / x)
      else if x < 0 then (if 0 \<le> y then arctan (y / x) + pi else arctan (y / x) - pi)
      else if 0 < y then pi / 2
      else if y < 0 then - (pi / 2)
      else 0)"

text \<open>
  The rounding of IEEE 754 binary64 arithmetic, to the nearest number of 53 significant
  bits with ties to the even one, on the reals (without overflow and subnormal numbers):
  \<open>double_add\<close> is the addition of two doubles and \<open>double_0_1\<close> is the literal
  \<^verbatim>\<open>0.1\<close>.
\<close>

definition round_even :: "real \<Rightarrow> int" where
  "round_even y =
     (let f = \<lfloor>y\<rfloor>; d = y - of_int f
      in if d < 1 / 2 then f else if 1 / 2 < d then f + 1 else if even f then f else f + 1)"

definition double_round :: "real \<Rightarrow> real" where
  "double_round x =
     (if x = 0 then 0
      else let e = \<lfloor>log 2 \<bar>x\<bar>\<rfloor>; ulp = 2 powr (of_int e - 52)
           in ulp * of_int (round_even (x / ulp)))"

definition double_add :: "real \<Rightarrow> real \<Rightarrow> real" where
  "double_add a b = double_round (a + b)"

definition double_0_1 :: real where
  "double_0_1 = double_round (1 / 10)"

text \<open>
  The members of \<^verbatim>\<open>PlannerBase\<close> that the planners use: the constraint handle and the
  result path. A member \<^verbatim>\<open>name_\<close> of the source is the field \<open>name_'\<close>, since an
  identifier cannot end with an underscore.
\<close>

record PlannerBase =
  constraint_' :: Constraint
  result_' :: "State list"

text \<open>
  The members of class \<^verbatim>\<open>RRT\<close>. Class \<^verbatim>\<open>InformedRRTStar\<close> declares members of the
  same names and types and adds its own, so its record below extends this one;
  \<^verbatim>\<open>max_sampling_num_\<close> is a \<^verbatim>\<open>uint32_t\<close>.
\<close>

record RRT = PlannerBase +
  max_sampling_num_' :: "32 word"
  goal_sampling_rate_' :: real
  expand_dist_' :: real

section \<open>Steering, shared by both planners\<close>

text \<open>
  The \<^verbatim>\<open>else\<close> branch of \<^verbatim>\<open>generateSteerNode\<close>, identical in both files: the loop
  \<^verbatim>\<open>for(int i = getDim() - 1; 0 < i; i--)\<close> over the axis index, on the shrinking copies
  \<^verbatim>\<open>src\<close> and \<^verbatim>\<open>dst\<close>, followed by \<^verbatim>\<open>vals[0] += dim_expand_dist\<close>. Reads outside a
  vector, undefined in C++, are not modelled.
\<close>

fun steer_loop :: "nat \<Rightarrow> State \<Rightarrow> State \<Rightarrow> real \<Rightarrow> State \<Rightarrow> State" where
  "steer_loop 0 src dst dim_expand_dist vals = vals[0 := vals ! 0 + dim_expand_dist]"
| "steer_loop (Suc n) src dst dim_expand_dist vals =
     (let i = Suc n;
          dist_delta_dim = last dst - last src;
          src' = butlast src;
          dst' = butlast dst;
          dist_lower_dim = (if i \<noteq> 1 then distanceFrom dst' src' else hd dst' - hd src');
          t = atan2 dist_delta_dim dist_lower_dim
      in steer_loop n src' dst' (dim_expand_dist * cos t)
           (vals[i := vals ! i + dim_expand_dist * sin t]))"

definition steer_state :: "nat \<Rightarrow> State \<Rightarrow> State \<Rightarrow> real \<Rightarrow> State" where
  "steer_state dimension src dst expand_dist =
     (if distanceFrom src dst < expand_dist then dst
      else steer_loop (dimension - 1) src dst expand_dist src)"

text \<open>
  \<^verbatim>\<open>getNearestNodeIndex\<close>, identical in both files, on the states of the node list:
  the running minimum starts at \<^verbatim>\<open>DBL_MAX\<close> with index 0.
\<close>

fun nearest_loop :: "State \<Rightarrow> State list \<Rightarrow> nat \<Rightarrow> real \<Rightarrow> nat \<Rightarrow> nat" where
  "nearest_loop target [] i min_dist min_dist_index = min_dist_index"
| "nearest_loop target (s # ss) i min_dist min_dist_index =
     (let dist = distanceFrom s target
      in if dist < min_dist then nearest_loop target ss (Suc i) dist i
         else nearest_loop target ss (Suc i) min_dist min_dist_index)"

section \<open>RRT\<close>

text \<open>
  \<^verbatim>\<open>RRT::Node{state, parent}\<close>. The nodes of this planner are never changed after
  they are built, so the shared pointer to the parent is the parent itself.
\<close>

datatype RRT_Node = RRT_Node (rrt_state: State) (rrt_parent: "RRT_Node option")

definition RRT_setGoalSamplingRate :: "RRT \<Rightarrow> real \<Rightarrow> error + RRT" where
  "RRT_setGoalSamplingRate P goal_sampling_rate =
     (if \<not> (0 \<le> goal_sampling_rate \<and> goal_sampling_rate \<le> 1) then Inl RuntimeError
      else Inr (P\<lparr>goal_sampling_rate_' := goal_sampling_rate\<rparr>))"

text \<open>
  The constructor: the member initialisers, then \<^verbatim>\<open>setGoalSamplingRate\<close>. The constraint
  and the result path belong to \<^verbatim>\<open>PlannerBase(dim)\<close>, whose source is not given: they
  are parameters here, and the rate before the call is unspecified in C++ (0 here).
\<close>

definition RRT_new :: "Constraint \<Rightarrow> 32 word \<Rightarrow> real \<Rightarrow> real \<Rightarrow> error + RRT" where
  "RRT_new C max_sampling_num goal_sampling_rate expand_dist =
     RRT_setGoalSamplingRate
       \<lparr>constraint_' = C, result_' = [], max_sampling_num_' = max_sampling_num,
        goal_sampling_rate_' = 0, expand_dist_' = expand_dist\<rparr>
       goal_sampling_rate"

definition RRT_getNearestNodeIndex :: "RRT_Node \<Rightarrow> RRT_Node list \<Rightarrow> nat" where
  "RRT_getNearestNodeIndex target_node node_list =
     nearest_loop (rrt_state target_node) (map rrt_state node_list) 0 DBL_MAX 0"

definition RRT_generateSteerNode :: "RRT \<Rightarrow> RRT_Node \<Rightarrow> RRT_Node \<Rightarrow> real \<Rightarrow> RRT_Node" where
  "RRT_generateSteerNode P src_node dst_node expand_dist =
     RRT_Node (steer_state (getDim (constraint_' P)) (rrt_state src_node) (rrt_state dst_node)
                 expand_dist)
              (Some src_node)"

text \<open>
  \<^verbatim>\<open>RRT::checkCollision\<close>: the loop
  \<^verbatim>\<open>for(double ratio_i = 0; ratio_i < 1.0; ratio_i += 0.1)\<close> on the loop variable, a
  double. The sums are rounded, so that ten additions of \<^verbatim>\<open>0.1\<close> stay below \<open>1\<close> and
  the loop makes an eleventh test next to the destination. The loop is a partial
  function, since for other initial values of the variable it need not end; the result
  of the call is \<open>None\<close> when it does not return.
\<close>

partial_function (option) RRT_checkCollision_loop ::
  "RRT \<Rightarrow> State \<Rightarrow> State \<Rightarrow> real \<Rightarrow> bool option" where
  "RRT_checkCollision_loop P src vec ratio_i =
     (if ratio_i < 1 then
        (if checkConstraintType (constraint_' P) (state_add src (state_mul vec ratio_i)) = NOENTRY
         then Some False
         else RRT_checkCollision_loop P src vec (double_add ratio_i double_0_1))
      else Some True)"

definition RRT_checkCollision :: "RRT \<Rightarrow> RRT_Node \<Rightarrow> RRT_Node \<Rightarrow> bool option" where
  "RRT_checkCollision P src_node dst_node =
     RRT_checkCollision_loop P (rrt_state src_node)
       (state_sub (rrt_state dst_node) (rrt_state src_node)) 0"

section \<open>Informed RRT*\<close>

text \<open>
  \<^verbatim>\<open>InformedRRTStar::Node(state, parent, cost)\<close>. Rewiring changes the parent and the
  cost of nodes that other nodes point to, so the pointer graph is kept: every node a
  parent pointer refers to is an element of the node list, and the pointer is the
  position of that element.
\<close>

record Node =
  state :: State
  parent :: "nat option"
  cost :: real

record InformedRRTStar = RRT +
  R_' :: real
  goal_region_radius_' :: real
  result_cost_' :: real
  node_list_' :: "Node list"

definition setGoalSamplingRate :: "InformedRRTStar \<Rightarrow> real \<Rightarrow> error + InformedRRTStar" where
  "setGoalSamplingRate P goal_sampling_rate =
     (if \<not> (0 \<le> goal_sampling_rate \<and> goal_sampling_rate \<le> 1) then Inl InvalidArgument
      else Inr (P\<lparr>goal_sampling_rate_' := goal_sampling_rate\<rparr>))"

definition InformedRRTStar_new ::
  "Constraint \<Rightarrow> 32 word \<Rightarrow> real \<Rightarrow> real \<Rightarrow> real \<Rightarrow> real \<Rightarrow> error + InformedRRTStar" where
  "InformedRRTStar_new C max_sampling_num goal_sampling_rate expand_dist R goal_region_radius =
     setGoalSamplingRate
       \<lparr>constraint_' = C, result_' = [], max_sampling_num_' = max_sampling_num,
        goal_sampling_rate_' = 0, expand_dist_' = expand_dist,
        R_' = R, goal_region_radius_' = goal_region_radius, result_cost_' = 0, node_list_' = []\<rparr>
       goal_sampling_rate"

definition getNearestNodeIndex :: "Node \<Rightarrow> Node list \<Rightarrow> nat" where
  "getNearestNodeIndex target_node node_list =
     nearest_loop (state target_node) (map state node_list) 0 DBL_MAX 0"

text \<open>
  \<^verbatim>\<open>generateSteerNode(src_node, dst_node, expand_dist)\<close>; the source node is given by
  its position \<open>src\<close> in the node list.
\<close>

definition generateSteerNode :: "InformedRRTStar \<Rightarrow> Node list \<Rightarrow> nat \<Rightarrow> Node \<Rightarrow> real \<Rightarrow> Node" where
  "generateSteerNode P node_list src dst_node expand_dist =
     (let src_node = node_list ! src
      in \<lparr>state = steer_state (getDim (constraint_' P)) (state src_node) (state dst_node) expand_dist,
          parent = Some src,
          cost = (if distanceFrom (state src_node) (state dst_node) < expand_dist
                  then cost src_node + distanceFrom (state src_node) (state dst_node)
                  else cost src_node + expand_dist)\<rparr>)"

text \<open>
  \<^verbatim>\<open>findNearNodes\<close>. The radius is \<^verbatim>\<open>R_ * pow(log(N) / N, 1.0 / getDim())\<close>; for a
  space of dimension 0 the exponent is infinite and the power of a base in \<open>[0, 1)\<close>
  is 0.
\<close>

definition findNearNodes :: "InformedRRTStar \<Rightarrow> Node \<Rightarrow> Node list \<Rightarrow> nat list" where
  "findNearNodes P target_node node_list =
     (let num_node = length node_list
      in if num_node \<noteq> 0 then
           (let radius = R_' P *
                  (if getDim (constraint_' P) = 0 then 0
                   else (ln (real num_node) / real num_node) powr (1 / real (getDim (constraint_' P))))
            in filter (\<lambda>i. distanceFrom (state (node_list ! i)) (state target_node) < radius)
                 [0..<num_node])
         else [])"

text \<open>
  \<^verbatim>\<open>chooseParentNode\<close>: the loop over the near indices carries
  \<^verbatim>\<open>min_cost_parent_node\<close> and \<^verbatim>\<open>min_cost\<close>; the collision test is made only when the
  cost improves the running minimum.
\<close>

fun chooseParentNode_loop ::
  "InformedRRTStar \<Rightarrow> Node \<Rightarrow> Node list \<Rightarrow> nat list \<Rightarrow> nat option \<Rightarrow> real \<Rightarrow> nat option \<times> real" where
  "chooseParentNode_loop P target_node node_list [] min_cost_parent_node min_cost =
     (min_cost_parent_node, min_cost)"
| "chooseParentNode_loop P target_node node_list (near_node_index # rest) min_cost_parent_node min_cost =
     (let dist = distanceFrom (state target_node) (state (node_list ! near_node_index));
          cost1 = cost (node_list ! near_node_index) + dist
      in if cost1 < min_cost then
           (if checkCollision (constraint_' P) (state target_node) (state (node_list ! near_node_index))
            then chooseParentNode_loop P target_node node_list rest (Some near_node_index) cost1
            else chooseParentNode_loop P target_node node_list rest min_cost_parent_node min_cost)
         else chooseParentNode_loop P target_node node_list rest min_cost_parent_node min_cost)"

definition chooseParentNode :: "InformedRRTStar \<Rightarrow> Node \<Rightarrow> Node list \<Rightarrow> nat list \<Rightarrow> Node" where
  "chooseParentNode P target_node node_list near_node_indexes =
     (case chooseParentNode_loop P target_node node_list near_node_indexes
             (parent target_node) DBL_MAX of
        (min_cost_parent_node, min_cost) \<Rightarrow>
          if min_cost \<noteq> DBL_MAX
          then target_node\<lparr>parent := min_cost_parent_node, cost := min_cost\<rparr>
          else target_node)"

text \<open>
  \<^verbatim>\<open>rewireNearNodes\<close>: \<^verbatim>\<open>new_node\<close> points to the last element of the list, and the
  assignments go through the pointer \<^verbatim>\<open>near_node\<close> into the list.
\<close>

fun rewireNearNodes :: "InformedRRTStar \<Rightarrow> Node list \<Rightarrow> nat list \<Rightarrow> Node list" where
  "rewireNearNodes P node_list [] = node_list"
| "rewireNearNodes P node_list (near_node_index # rest) =
     (let new_node = last node_list;
          near_node = node_list ! near_node_index;
          new_cost = cost new_node + distanceFrom (state near_node) (state new_node)
      in if new_cost < cost near_node then
           (if checkCollision (constraint_' P) (state new_node) (state near_node)
            then rewireNearNodes P
                   (node_list[near_node_index :=
                      near_node\<lparr>parent := Some (length node_list - 1), cost := new_cost\<rparr>])
                   rest
            else rewireNearNodes P node_list rest)
         else rewireNearNodes P node_list rest)"

text \<open>\<^verbatim>\<open>getBestNodeIndex\<close>: an \<^verbatim>\<open>int\<close>, \<open>-1\<close> when no node is within the radius.\<close>

fun getBestNodeIndex_loop :: "State \<Rightarrow> real \<Rightarrow> Node list \<Rightarrow> nat \<Rightarrow> int \<Rightarrow> real \<Rightarrow> int" where
  "getBestNodeIndex_loop target_state radius [] i best_index min_cost = best_index"
| "getBestNodeIndex_loop target_state radius (n # ns) i best_index min_cost =
     (let dist_from_target = distanceFrom target_state (state n)
      in if dist_from_target < radius then
           (if cost n < min_cost
            then getBestNodeIndex_loop target_state radius ns (Suc i) (int i) (cost n)
            else getBestNodeIndex_loop target_state radius ns (Suc i) best_index min_cost)
         else getBestNodeIndex_loop target_state radius ns (Suc i) best_index min_cost)"

definition getBestNodeIndex :: "State \<Rightarrow> real \<Rightarrow> Node list \<Rightarrow> int" where
  "getBestNodeIndex target_state radius node_list =
     getBestNodeIndex_loop target_state radius node_list 0 (- 1) DBL_MAX"

text \<open>
  One pass of a sampling loop consumes a draw \<open>(u, x)\<close> of the random number generator:
  \<open>u\<close> is the value of \<^verbatim>\<open>sample_restriction(rand)\<close> and \<open>x\<close> is the state of
  \<^verbatim>\<open>rand_node\<close> once its coordinates have been redrawn (uniformly within the bounds or,
  in Informed RRT* with a known solution, through \<^verbatim>\<open>sampleUnitNBall\<close> and the rotation
  of \<^verbatim>\<open>calcRotationToWorldFlame\<close>); \<open>x\<close> is read only when
  \<^verbatim>\<open>goal_sampling_rate_ < u\<close>.
\<close>

type_synonym draw = "real \<times> State"

definition best_cost_of :: "Node list \<Rightarrow> nat list \<Rightarrow> real" where
  "best_cost_of node_list goal_node_indexes =
     fold (\<lambda>goal_node_index best_cost. min best_cost (cost (node_list ! goal_node_index)))
       goal_node_indexes DBL_MAX"

text \<open>
  The body of the \<^verbatim>\<open>for\<close> loop of \<^verbatim>\<open>InformedRRTStar::solve\<close> on the node list and the
  goal-region indices. \<^verbatim>\<open>sampleUnitNBall\<close> throws for a space of dimension 0.
\<close>

definition solve_iteration ::
  "InformedRRTStar \<Rightarrow> State \<Rightarrow> draw \<Rightarrow> Node list \<times> nat list \<Rightarrow> error + Node list \<times> nat list" where
  "solve_iteration P goal d s =
     (case d of (u, x) \<Rightarrow> case s of (node_list, goal_node_indexes) \<Rightarrow>
        let best_cost = best_cost_of node_list goal_node_indexes
        in if goal_sampling_rate_' P < u \<and> best_cost \<noteq> DBL_MAX \<and> getDim (constraint_' P) = 0
           then Inl InvalidArgument
           else if goal_sampling_rate_' P < u \<and> checkConstraintType (constraint_' P) x = NOENTRY
           then Inr (node_list, goal_node_indexes)
           else
             let rand_node = \<lparr>state = (if goal_sampling_rate_' P < u then x else goal),
                              parent = None, cost = 0\<rparr>;
                 nearest_node_index = getNearestNodeIndex rand_node node_list;
                 new_node = generateSteerNode P node_list nearest_node_index rand_node (expand_dist_' P)
             in if checkCollision (constraint_' P) (state (node_list ! nearest_node_index))
                     (state new_node)
                then
                  let near_node_indexes = findNearNodes P new_node node_list;
                      new_node1 = chooseParentNode P new_node node_list near_node_indexes;
                      node_list1 = rewireNearNodes P (node_list @ [new_node1]) near_node_indexes
                  in Inr (node_list1,
                          if distanceFrom (state new_node1) goal < goal_region_radius_' P
                          then goal_node_indexes @ [length node_list1 - 1]
                          else goal_node_indexes)
                else Inr (node_list, goal_node_indexes))"

text \<open>
  The loop \<^verbatim>\<open>for(size_t i = 0; i < max_sampling_num_; i++)\<close>: \<open>n\<close> passes are left,
  and pass \<open>i\<close> consumes the draw \<open>rnd i\<close>.
\<close>

fun solve_loop ::
  "InformedRRTStar \<Rightarrow> State \<Rightarrow> (nat \<Rightarrow> draw) \<Rightarrow> nat \<Rightarrow> nat \<Rightarrow> Node list \<times> nat list
     \<Rightarrow> error + Node list \<times> nat list" where
  "solve_loop P goal rnd i 0 s = Inr s"
| "solve_loop P goal rnd i (Suc n) s =
     (case solve_iteration P goal (rnd i) s of
        Inl e \<Rightarrow> Inl e
      | Inr s1 \<Rightarrow> solve_loop P goal rnd (Suc i) n s1)"

text \<open>
  The loop that stores the result: it walks the parent pointers from \<^verbatim>\<open>result_node\<close>
  and inserts each state in front of the path, until a node without parent. On a cycle
  of parent pointers it does not return (\<open>None\<close>).
\<close>

partial_function (option) result_loop :: "Node list \<Rightarrow> nat \<Rightarrow> State list \<Rightarrow> State list option" where
  "result_loop node_list result_node result =
     (let result1 = state (node_list ! result_node) # result
      in case parent (node_list ! result_node) of
           None \<Rightarrow> Some result1
         | Some p \<Rightarrow> result_loop node_list p result1)"

text \<open>
  \<^verbatim>\<open>InformedRRTStar::solve\<close>. \<^verbatim>\<open>calcRotationToWorldFlame\<close> throws when the dimensions
  of start and goal differ or are below 2; its matrix is used only to compute the
  sampled states, which are given by \<open>rnd\<close>. The outcome is \<open>None\<close> when the call does
  not return, an error when it throws, and otherwise the returned flag with the
  planner after the call.
\<close>

definition solve ::
  "InformedRRTStar \<Rightarrow> State \<Rightarrow> State \<Rightarrow> (nat \<Rightarrow> draw) \<Rightarrow> (error + bool \<times> InformedRRTStar) option" where
  "solve P start goal rnd =
     (if length start \<noteq> length goal \<or> length start < 2 then Some (Inl InvalidArgument)
      else
        case solve_loop P goal rnd 0 (unat (max_sampling_num_' P))
               ([\<lparr>state = start, parent = None, cost = 0\<rparr>], []) of
          Inl e \<Rightarrow> Some (Inl e)
        | Inr (node_list, goal_node_indexes) \<Rightarrow>
            let P1 = P\<lparr>result_' := []\<rparr>;
                best_last_index = getBestNodeIndex goal (expand_dist_' P) node_list
            in if best_last_index < 0 then Some (Inr (False, P1))
               else
                 let result_node = node_list ! nat best_last_index;
                     P2 = P1\<lparr>result_cost_' := cost result_node + distanceFrom (state result_node) goal\<rparr>;
                     result0 = (if state result_node \<noteq> goal then [goal] else [])
                 in (case result_loop node_list (nat best_last_index) result0 of
                       None \<Rightarrow> None
                     | Some path \<Rightarrow>
                         Some (Inr (True, P2\<lparr>result_' := path, node_list_' := node_list\<rparr>))))"

section \<open>The sampling loop of RRT\<close>

text \<open>
  The \<^verbatim>\<open>while(true)\<close> loop of \<^verbatim>\<open>RRT::solve\<close> on the node list and the \<^verbatim>\<open>uint32_t\<close>
  counter \<^verbatim>\<open>sampling_cnt\<close>. Each pass consumes one draw; the loop is given the draws
  of its first passes and has not returned (\<open>None\<close>) when it needs another one. It
  returns the flag (\<open>True\<close> after \<^verbatim>\<open>break\<close>, \<open>False\<close> at \<^verbatim>\<open>return false\<close>), the node
  list, the counter and the draws it has not consumed. A collision test that does not
  return leaves the loop without result.
\<close>

fun RRT_solve_loop ::
  "RRT \<Rightarrow> State \<Rightarrow> draw list \<Rightarrow> RRT_Node list \<Rightarrow> 32 word
     \<Rightarrow> (bool \<times> RRT_Node list \<times> 32 word \<times> draw list) option" where
  "RRT_solve_loop P goal [] node_list sampling_cnt = None"
| "RRT_solve_loop P goal ((u, x) # draws) node_list sampling_cnt =
     (if goal_sampling_rate_' P < u \<and> checkConstraintType (constraint_' P) x = NOENTRY
      then RRT_solve_loop P goal draws node_list sampling_cnt
      else
        let rand_node = RRT_Node (if goal_sampling_rate_' P < u then x else goal) None;
            nearest_node_index = RRT_getNearestNodeIndex rand_node node_list;
            new_node = RRT_generateSteerNode P (node_list ! nearest_node_index) rand_node
                         (expand_dist_' P)
        in (case RRT_checkCollision P (node_list ! nearest_node_index) new_node of
              None \<Rightarrow> None
            | Some accepted \<Rightarrow>
                let node_list1 = (if accepted then node_list @ [new_node] else node_list)
                in if accepted \<and> distanceFrom (rrt_state new_node) goal \<le> expand_dist_' P
                   then Some (True, node_list1 @ [RRT_Node goal (Some (last node_list1))],
                              sampling_cnt, draws)
                   else
                     let sampling_cnt1 = sampling_cnt + 1
                     in if max_sampling_num_' P = sampling_cnt1
                        then Some (False, node_list1, sampling_cnt1, draws)
                        else RRT_solve_loop P goal draws node_list1 sampling_cnt1))"

text \<open>The loop that stores the result, from the last node back to the node without parent.\<close>

fun RRT_result_loop :: "RRT_Node \<Rightarrow> State list \<Rightarrow> State list" where
  "RRT_result_loop (RRT_Node s None) result = s # result"
| "RRT_result_loop (RRT_Node s (Some p)) result = RRT_result_loop p (s # result)"

text \<open>
  \<^verbatim>\<open>RRT::solve\<close>: the returned flag and the planner after the call, or \<open>None\<close> when
  the sampling loop has not returned on the given draws.
\<close>

definition RRT_solve :: "RRT \<Rightarrow> State \<Rightarrow> State \<Rightarrow> draw list \<Rightarrow> (bool \<times> RRT) option" where
  "RRT_solve P start goal draws =
     (case RRT_solve_loop P goal draws [RRT_Node start None] 0 of
        None \<Rightarrow> None
      | Some (ok, node_list, sampling_cnt, rest) \<Rightarrow>
          if \<not> ok then Some (False, P)
          else Some (True, P\<lparr>result_' := RRT_result_loop (last node_list) []\<rparr>))"

section \<open>Reference notions and example inputs\<close>

text \<open>Example inputs: a two-dimensional space without obstacles and planners on it.\<close>

definition free_space :: Constraint where
  "free_space = \<lparr>getDim = 2, checkConstraintType = (\<lambda>x. FREE), checkCollision = (\<lambda>a b. True)\<rparr>"

definition rrt_example :: RRT where
  "rrt_example = \<lparr>constraint_' = free_space, result_' = [ [0, 0], [1, 0], [2, 0] ],
      max_sampling_num_' = 1,
      goal_sampling_rate_' = 0, expand_dist_' = 2\<rparr>"

definition informed_example :: InformedRRTStar where
  "informed_example = \<lparr>constraint_' = free_space, result_' = [], max_sampling_num_' = 2,
      goal_sampling_rate_' = 0, expand_dist_' = 2, R_' = 10, goal_region_radius_' = 1,
      result_cost_' = 0, node_list_' = []\<rparr>"

text \<open>
  The reference of C10, written from the claim: filter the near nodes by the collision
  test, then take the one of minimal cost through it, the first on ties
  (\<open>arg_min_list\<close> returns the first minimal element); without a node that passes,
  the candidate is unchanged.
\<close>

definition chooseParentNode_naive :: "InformedRRTStar \<Rightarrow> Node \<Rightarrow> Node list \<Rightarrow> nat list \<Rightarrow> Node" where
  "chooseParentNode_naive P target_node node_list near_node_indexes =
     (let passing = filter (\<lambda>i. checkCollision (constraint_' P) (state target_node)
                                 (state (node_list ! i))) near_node_indexes;
          via = (\<lambda>i. cost (node_list ! i) + distanceFrom (state (node_list ! i)) (state target_node))
      in if passing = [] then target_node
         else target_node\<lparr>parent := Some (arg_min_list via passing),
                          cost := via (arg_min_list via passing)\<rparr>)"

text \<open>
  Example: three nodes on a line, the last with a stale cost; a candidate steered from
  it; the list once the candidate has its parent and is appended.
\<close>

definition example_tree :: "Node list" where
  "example_tree =
     [\<lparr>state = [0, 0], parent = None, cost = 0\<rparr>,
      \<lparr>state = [1, 0], parent = Some 0, cost = 1\<rparr>,
      \<lparr>state = [2, 0], parent = Some 1, cost = 5\<rparr>]"

definition example_candidate :: Node where
  "example_candidate = \<lparr>state = [3, 0], parent = Some 2, cost = 6\<rparr>"

definition example_tree1 :: "Node list" where
  "example_tree1 = example_tree @ [\<lparr>state = [3, 0], parent = Some 0, cost = 3\<rparr>]"

text \<open>
  Example: a node list whose second node has the cost \<^verbatim>\<open>DBL_MAX\<close>, and a candidate at
  the state of that node, steered from the root.
\<close>

definition saturated_tree :: "Node list" where
  "saturated_tree =
     [\<lparr>state = [5, 0], parent = None, cost = 0\<rparr>,
      \<lparr>state = [0, 0], parent = Some 0, cost = DBL_MAX\<rparr>]"

definition saturated_candidate :: Node where
  "saturated_candidate = \<lparr>state = [0, 0], parent = Some 0, cost = 2\<rparr>"

text \<open>
  The test of \<^verbatim>\<open>RRT::checkCollision\<close> as a relation on states: the call returns true.
\<close>

definition RRT_segment :: "RRT \<Rightarrow> State \<Rightarrow> State \<Rightarrow> bool" where
  "RRT_segment P a b \<longleftrightarrow> RRT_checkCollision P (RRT_Node a None) (RRT_Node b None) = Some True"

text \<open>
  A draw is discarded by the sampling loop of RRT when the sampled state is classified
  \<^verbatim>\<open>NOENTRY\<close>: the pass ends at \<^verbatim>\<open>continue\<close>, before the counter. The counted
  passes are the others.
\<close>

definition RRT_discarded :: "RRT \<Rightarrow> draw \<Rightarrow> bool" where
  "RRT_discarded P d =
     (goal_sampling_rate_' P < fst d \<and> checkConstraintType (constraint_' P) (snd d) = NOENTRY)"

definition RRT_counted :: "RRT \<Rightarrow> draw list \<Rightarrow> nat" where
  "RRT_counted P draws = length (filter (\<lambda>d. \<not> RRT_discarded P d) draws)"

text \<open>
  Example: a space whose states with first coordinate in \<open>[3/2, 5/2]\<close> are forbidden,
  and a planner of RRT on it.
\<close>

definition wall_space :: Constraint where
  "wall_space = \<lparr>getDim = 2,
     checkConstraintType = (\<lambda>x. if 3 / 2 \<le> x ! 0 \<and> x ! 0 \<le> 5 / 2 then NOENTRY else FREE),
     checkCollision = (\<lambda>a b. \<not> (min (a ! 0) (b ! 0) \<le> 5 / 2 \<and> 3 / 2 \<le> max (a ! 0) (b ! 0)))\<rparr>"

definition rrt_wall :: RRT where
  "rrt_wall = \<lparr>constraint_' = wall_space, result_' = [], max_sampling_num_' = 1,
      goal_sampling_rate_' = 0, expand_dist_' = 2\<rparr>"

text \<open>
  What the sampling loop of RRT keeps for each node of its list: the path stored from
  the node starts at the start state and each of its segments passed the test.
\<close>

definition RRT_path_ok :: "RRT \<Rightarrow> State \<Rightarrow> RRT_Node \<Rightarrow> bool" where
  "RRT_path_ok P start n \<longleftrightarrow>
     hd (RRT_result_loop n []) = start \<and> successively (RRT_segment P) (RRT_result_loop n [])"

text \<open>
  The parent pointers of a node list as a relation from a position to the position of
  its parent, and what the sampling loop of Informed RRT* keeps for its node list: the
  first node is the root, with the start state and cost 0; the costs are not negative;
  every other node has a parent in the list, of no greater cost, and the segment between
  them passed the collision test in one of the two orders; and the root is reached from
  every node along parent pointers.
\<close>

definition parent_rel :: "Node list \<Rightarrow> (nat \<times> nat) set" where
  "parent_rel nl = {(i, p). i < length nl \<and> parent (nl ! i) = Some p}"

definition edge_ok :: "InformedRRTStar \<Rightarrow> State \<Rightarrow> State \<Rightarrow> bool" where
  "edge_ok P a b \<longleftrightarrow> checkCollision (constraint_' P) a b \<or> checkCollision (constraint_' P) b a"

definition tree_inv :: "InformedRRTStar \<Rightarrow> State \<Rightarrow> Node list \<Rightarrow> bool" where
  "tree_inv P start nl \<longleftrightarrow>
     nl \<noteq> [] \<and> state (nl ! 0) = start \<and> parent (nl ! 0) = None \<and> cost (nl ! 0) = 0 \<and>
     (\<forall>i<length nl. 0 \<le> cost (nl ! i)) \<and>
     (\<forall>i<length nl. 0 < i \<longrightarrow>
        (\<exists>p<length nl. parent (nl ! i) = Some p \<and> cost (nl ! p) \<le> cost (nl ! i) \<and>
           edge_ok P (state (nl ! p)) (state (nl ! i)))) \<and>
     (\<forall>i<length nl. (i, 0) \<in> (parent_rel nl)\<^sup>*)"

text \<open>
  Following the parent pointers from position \<open>i\<close> for at most \<open>k\<close> steps: the
  position of the node without parent that is reached, if any. A node list is well
  formed when exactly one node has no parent and every node reaches position 0 in at
  most as many steps as there are nodes.
\<close>

fun parent_walk :: "Node list \<Rightarrow> nat \<Rightarrow> nat \<Rightarrow> nat option" where
  "parent_walk nl 0 i =
     (if i < length nl then (case parent (nl ! i) of None \<Rightarrow> Some i | Some p \<Rightarrow> None) else None)"
| "parent_walk nl (Suc k) i =
     (if i < length nl
      then (case parent (nl ! i) of None \<Rightarrow> Some i | Some p \<Rightarrow> parent_walk nl k p)
      else None)"

definition well_formed_tree :: "Node list \<Rightarrow> bool" where
  "well_formed_tree nl \<longleftrightarrow>
     length (filter (\<lambda>n. parent n = None) nl) = 1 \<and>
     (\<forall>i<length nl. parent_walk nl (length nl) i = Some 0)"

text \<open>
  Example: the draws of a run of Informed RRT* from \<open>(0, 0)\<close> to \<open>(2, 0)\<close> with two
  passes, and the node list it builds.
\<close>

definition rnd_example :: "nat \<Rightarrow> draw" where
  "rnd_example i = (if i = 0 then (1 / 2, [1, 0]) else (1 / 2, [2, 0]))"

definition example_result :: "Node list" where
  "example_result =
     [\<lparr>state = [0, 0], parent = None, cost = 0\<rparr>,
      \<lparr>state = [1, 0], parent = Some 0, cost = 1\<rparr>,
      \<lparr>state = [2, 0], parent = Some 0, cost = 2\<rparr>]"

section \<open>Facts about the state algebra\<close>

lemma distanceFrom_sym: "distanceFrom a b = distanceFrom b a"
proof -
  have "map2 (\<lambda>x y. (x - y)\<^sup>2) a b = map2 (\<lambda>x y. (x - y)\<^sup>2) b a"
  proof (induction a arbitrary: b)
    case Nil
    then show ?case by simp
  next
    case (Cons x xs)
    then show ?case by (cases b) (simp_all add: power2_commute)
  qed
  then show ?thesis by (simp add: distanceFrom_def)
qed

lemma distanceFrom_self: "distanceFrom a a = 0"
proof -
  have "sum_list (map2 (\<lambda>x y. (x - y)\<^sup>2) a a) = 0"
    by (induction a) simp_all
  then show ?thesis by (simp add: distanceFrom_def)
qed

lemma sum_list_sq_nonneg: "0 \<le> sum_list (map2 (\<lambda>x y. (x - y)\<^sup>2) a (b::real list))"
  by (rule sum_list_nonneg) (auto simp: in_set_zip)

lemma distanceFrom_nonneg: "0 \<le> distanceFrom a b"
  by (simp add: distanceFrom_def sum_list_sq_nonneg)

lemma distanceFrom_axis: "distanceFrom [a, b] [c, b] = \<bar>a - c\<bar>"
  by (simp add: distanceFrom_def)

section \<open>The collision test of RRT\<close>

lemma double_round_binade:
  assumes "2 powr of_int e \<le> x" and "x < 2 powr (of_int e + 1)"
  shows "double_round x = 2 powr (of_int e - 52) * of_int (round_even (x / 2 powr (of_int e - 52)))"
proof -
  have pos: "0 < x"
    using assms(1) by (smt (verit) powr_gt_zero)
  then have "\<lfloor>log 2 \<bar>x\<bar>\<rfloor> = e"
    using assms by (simp add: floor_log_eq_powr_iff)
  with pos show ?thesis
    by (simp add: double_round_def Let_def)
qed

lemma powr_neg_nat: "(2::real) powr (- real m) = 1 / 2 ^ m"
  by (simp add: powr_minus powr_realpow divide_inverse)

lemma double_round_below_1:
  assumes "1 / 2 ^ n \<le> x" and "x < 2 / 2 ^ n"
  shows "double_round x = of_int (round_even (x * 2 ^ (n + 52))) / 2 ^ (n + 52)"
proof -
  have a: "(2::real) powr of_int (- int n) = 1 / 2 ^ n"
    by (simp add: powr_minus powr_realpow divide_inverse)
  have b: "(2::real) powr (of_int (- int n) + 1) = 2 / 2 ^ n"
  proof -
    have "(2::real) powr (1 + (- real n)) = 2 powr 1 * 2 powr (- real n)"
      by (rule powr_add)
    then have "(2::real) powr (of_int (- int n) + 1) = 2 powr 1 * 2 powr (- real n)"
      by (simp add: add.commute)
    also have "\<dots> = 2 / 2 ^ n"
      by (simp add: powr_minus powr_realpow divide_inverse)
    finally show ?thesis .
  qed
  have c: "(2::real) powr (of_int (- int n) - 52) = 1 / 2 ^ (n + 52)"
  proof -
    have "(2::real) powr (of_int (- int n) - 52) = 2 powr (- real (n + 52))"
      by simp
    also have "\<dots> = 1 / 2 ^ (n + 52)"
      by (rule powr_neg_nat)
    finally show ?thesis .
  qed
  from double_round_binade [of "- int n" x] assms show ?thesis
    unfolding a b c by simp
qed

lemma double_round_from_1:
  assumes "1 \<le> x" and "x < 2"
  shows "double_round x = of_int (round_even (x * 2 ^ 52)) / 2 ^ 52"
  using double_round_below_1 [of 0 x] assms by simp

text \<open>The literal \<^verbatim>\<open>0.1\<close> and the values of \<^verbatim>\<open>ratio_i\<close> after each addition.\<close>

lemma double_0_1_eq: "double_0_1 = 3602879701896397 / 36028797018963968"
  unfolding double_0_1_def
  by (subst double_round_below_1 [of 4]) (simp_all add: round_even_def Let_def)

lemma ratio_1: "double_add (0) double_0_1 = 3602879701896397 / 36028797018963968"
  unfolding double_add_def double_0_1_eq
  by (subst double_round_below_1 [of 4]) (simp_all add: round_even_def Let_def)

lemma ratio_2: "double_add (3602879701896397 / 36028797018963968) double_0_1 = 3602879701896397 / 18014398509481984"
  unfolding double_add_def double_0_1_eq
  by (subst double_round_below_1 [of 3]) (simp_all add: round_even_def Let_def)

lemma ratio_3: "double_add (3602879701896397 / 18014398509481984) double_0_1 = 1351079888211149 / 4503599627370496"
  unfolding double_add_def double_0_1_eq
  by (subst double_round_below_1 [of 2]) (simp_all add: round_even_def Let_def)

lemma ratio_4: "double_add (1351079888211149 / 4503599627370496) double_0_1 = 3602879701896397 / 9007199254740992"
  unfolding double_add_def double_0_1_eq
  by (subst double_round_below_1 [of 2]) (simp_all add: round_even_def Let_def)

lemma ratio_5: "double_add (3602879701896397 / 9007199254740992) double_0_1 = 1 / 2"
  unfolding double_add_def double_0_1_eq
  by (subst double_round_below_1 [of 1]) (simp_all add: round_even_def Let_def)

lemma ratio_6: "double_add (1 / 2) double_0_1 = 5404319552844595 / 9007199254740992"
  unfolding double_add_def double_0_1_eq
  by (subst double_round_below_1 [of 1]) (simp_all add: round_even_def Let_def)

lemma ratio_7: "double_add (5404319552844595 / 9007199254740992) double_0_1 = 3152519739159347 / 4503599627370496"
  unfolding double_add_def double_0_1_eq
  by (subst double_round_below_1 [of 1]) (simp_all add: round_even_def Let_def)

lemma ratio_8: "double_add (3152519739159347 / 4503599627370496) double_0_1 = 7205759403792793 / 9007199254740992"
  unfolding double_add_def double_0_1_eq
  by (subst double_round_below_1 [of 1]) (simp_all add: round_even_def Let_def)

lemma ratio_9: "double_add (7205759403792793 / 9007199254740992) double_0_1 = 2026619832316723 / 2251799813685248"
  unfolding double_add_def double_0_1_eq
  by (subst double_round_below_1 [of 1]) (simp_all add: round_even_def Let_def)

lemma ratio_10: "double_add (2026619832316723 / 2251799813685248) double_0_1 = 9007199254740991 / 9007199254740992"
  unfolding double_add_def double_0_1_eq
  by (subst double_round_below_1 [of 1]) (simp_all add: round_even_def Let_def)

lemma ratio_11: "double_add (9007199254740991 / 9007199254740992) double_0_1 = 4953959590107545 / 4503599627370496"
  unfolding double_add_def double_0_1_eq
  by (subst double_round_from_1) (simp_all add: round_even_def Let_def)

lemma RRT_checkCollision_loop_step:
  assumes "r < 1" and "double_add r double_0_1 = r1"
  shows "RRT_checkCollision_loop P src vec r =
     (if checkConstraintType (constraint_' P) (state_add src (state_mul vec r)) \<noteq> NOENTRY
      then RRT_checkCollision_loop P src vec r1 else Some False)"
  using assms by (subst RRT_checkCollision_loop.simps) simp

lemma RRT_checkCollision_loop_points:
  "RRT_checkCollision_loop P src vec 0 =
     Some (\<forall>r\<in>set [0,
                     3602879701896397 / 36028797018963968,
                     3602879701896397 / 18014398509481984,
                     1351079888211149 / 4503599627370496,
                     3602879701896397 / 9007199254740992,
                     1 / 2,
                     5404319552844595 / 9007199254740992,
                     3152519739159347 / 4503599627370496,
                     7205759403792793 / 9007199254740992,
                     2026619832316723 / 2251799813685248,
                     9007199254740991 / 9007199254740992].
             checkConstraintType (constraint_' P) (state_add src (state_mul vec r)) \<noteq> NOENTRY)"
proof -
  have l11: "RRT_checkCollision_loop P src vec (4953959590107545 / 4503599627370496) = Some True"
    by (subst RRT_checkCollision_loop.simps) simp
  have l10: "RRT_checkCollision_loop P src vec (9007199254740991 / 9007199254740992) =
     Some (checkConstraintType (constraint_' P) (state_add src (state_mul vec (9007199254740991 / 9007199254740992))) \<noteq> NOENTRY)"
    by (subst RRT_checkCollision_loop_step [OF _ ratio_11]) (simp_all add: l11)
  have l9: "RRT_checkCollision_loop P src vec (2026619832316723 / 2251799813685248) =
     Some (checkConstraintType (constraint_' P) (state_add src (state_mul vec (2026619832316723 / 2251799813685248))) \<noteq> NOENTRY \<and>
       checkConstraintType (constraint_' P) (state_add src (state_mul vec (9007199254740991 / 9007199254740992))) \<noteq> NOENTRY)"
    by (subst RRT_checkCollision_loop_step [OF _ ratio_10]) (simp_all add: l10)
  have l8: "RRT_checkCollision_loop P src vec (7205759403792793 / 9007199254740992) =
     Some (checkConstraintType (constraint_' P) (state_add src (state_mul vec (7205759403792793 / 9007199254740992))) \<noteq> NOENTRY \<and>
       checkConstraintType (constraint_' P) (state_add src (state_mul vec (2026619832316723 / 2251799813685248))) \<noteq> NOENTRY \<and>
       checkConstraintType (constraint_' P) (state_add src (state_mul vec (9007199254740991 / 9007199254740992))) \<noteq> NOENTRY)"
    by (subst RRT_checkCollision_loop_step [OF _ ratio_9]) (simp_all add: l9)
  have l7: "RRT_checkCollision_loop P src vec (3152519739159347 / 4503599627370496) =
     Some (checkConstraintType (constraint_' P) (state_add src (state_mul vec (3152519739159347 / 4503599627370496))) \<noteq> NOENTRY \<and>
       checkConstraintType (constraint_' P) (state_add src (state_mul vec (7205759403792793 / 9007199254740992))) \<noteq> NOENTRY \<and>
       checkConstraintType (constraint_' P) (state_add src (state_mul vec (2026619832316723 / 2251799813685248))) \<noteq> NOENTRY \<and>
       checkConstraintType (constraint_' P) (state_add src (state_mul vec (9007199254740991 / 9007199254740992))) \<noteq> NOENTRY)"
    by (subst RRT_checkCollision_loop_step [OF _ ratio_8]) (simp_all add: l8)
  have l6: "RRT_checkCollision_loop P src vec (5404319552844595 / 9007199254740992) =
     Some (checkConstraintType (constraint_' P) (state_add src (state_mul vec (5404319552844595 / 9007199254740992))) \<noteq> NOENTRY \<and>
       checkConstraintType (constraint_' P) (state_add src (state_mul vec (3152519739159347 / 4503599627370496))) \<noteq> NOENTRY \<and>
       checkConstraintType (constraint_' P) (state_add src (state_mul vec (7205759403792793 / 9007199254740992))) \<noteq> NOENTRY \<and>
       checkConstraintType (constraint_' P) (state_add src (state_mul vec (2026619832316723 / 2251799813685248))) \<noteq> NOENTRY \<and>
       checkConstraintType (constraint_' P) (state_add src (state_mul vec (9007199254740991 / 9007199254740992))) \<noteq> NOENTRY)"
    by (subst RRT_checkCollision_loop_step [OF _ ratio_7]) (simp_all add: l7)
  have l5: "RRT_checkCollision_loop P src vec (1 / 2) =
     Some (checkConstraintType (constraint_' P) (state_add src (state_mul vec (1 / 2))) \<noteq> NOENTRY \<and>
       checkConstraintType (constraint_' P) (state_add src (state_mul vec (5404319552844595 / 9007199254740992))) \<noteq> NOENTRY \<and>
       checkConstraintType (constraint_' P) (state_add src (state_mul vec (3152519739159347 / 4503599627370496))) \<noteq> NOENTRY \<and>
       checkConstraintType (constraint_' P) (state_add src (state_mul vec (7205759403792793 / 9007199254740992))) \<noteq> NOENTRY \<and>
       checkConstraintType (constraint_' P) (state_add src (state_mul vec (2026619832316723 / 2251799813685248))) \<noteq> NOENTRY \<and>
       checkConstraintType (constraint_' P) (state_add src (state_mul vec (9007199254740991 / 9007199254740992))) \<noteq> NOENTRY)"
    by (subst RRT_checkCollision_loop_step [OF _ ratio_6]) (simp_all add: l6)
  have l4: "RRT_checkCollision_loop P src vec (3602879701896397 / 9007199254740992) =
     Some (checkConstraintType (constraint_' P) (state_add src (state_mul vec (3602879701896397 / 9007199254740992))) \<noteq> NOENTRY \<and>
       checkConstraintType (constraint_' P) (state_add src (state_mul vec (1 / 2))) \<noteq> NOENTRY \<and>
       checkConstraintType (constraint_' P) (state_add src (state_mul vec (5404319552844595 / 9007199254740992))) \<noteq> NOENTRY \<and>
       checkConstraintType (constraint_' P) (state_add src (state_mul vec (3152519739159347 / 4503599627370496))) \<noteq> NOENTRY \<and>
       checkConstraintType (constraint_' P) (state_add src (state_mul vec (7205759403792793 / 9007199254740992))) \<noteq> NOENTRY \<and>
       checkConstraintType (constraint_' P) (state_add src (state_mul vec (2026619832316723 / 2251799813685248))) \<noteq> NOENTRY \<and>
       checkConstraintType (constraint_' P) (state_add src (state_mul vec (9007199254740991 / 9007199254740992))) \<noteq> NOENTRY)"
    by (subst RRT_checkCollision_loop_step [OF _ ratio_5]) (simp_all add: l5)
  have l3: "RRT_checkCollision_loop P src vec (1351079888211149 / 4503599627370496) =
     Some (checkConstraintType (constraint_' P) (state_add src (state_mul vec (1351079888211149 / 4503599627370496))) \<noteq> NOENTRY \<and>
       checkConstraintType (constraint_' P) (state_add src (state_mul vec (3602879701896397 / 9007199254740992))) \<noteq> NOENTRY \<and>
       checkConstraintType (constraint_' P) (state_add src (state_mul vec (1 / 2))) \<noteq> NOENTRY \<and>
       checkConstraintType (constraint_' P) (state_add src (state_mul vec (5404319552844595 / 9007199254740992))) \<noteq> NOENTRY \<and>
       checkConstraintType (constraint_' P) (state_add src (state_mul vec (3152519739159347 / 4503599627370496))) \<noteq> NOENTRY \<and>
       checkConstraintType (constraint_' P) (state_add src (state_mul vec (7205759403792793 / 9007199254740992))) \<noteq> NOENTRY \<and>
       checkConstraintType (constraint_' P) (state_add src (state_mul vec (2026619832316723 / 2251799813685248))) \<noteq> NOENTRY \<and>
       checkConstraintType (constraint_' P) (state_add src (state_mul vec (9007199254740991 / 9007199254740992))) \<noteq> NOENTRY)"
    by (subst RRT_checkCollision_loop_step [OF _ ratio_4]) (simp_all add: l4)
  have l2: "RRT_checkCollision_loop P src vec (3602879701896397 / 18014398509481984) =
     Some (checkConstraintType (constraint_' P) (state_add src (state_mul vec (3602879701896397 / 18014398509481984))) \<noteq> NOENTRY \<and>
       checkConstraintType (constraint_' P) (state_add src (state_mul vec (1351079888211149 / 4503599627370496))) \<noteq> NOENTRY \<and>
       checkConstraintType (constraint_' P) (state_add src (state_mul vec (3602879701896397 / 9007199254740992))) \<noteq> NOENTRY \<and>
       checkConstraintType (constraint_' P) (state_add src (state_mul vec (1 / 2))) \<noteq> NOENTRY \<and>
       checkConstraintType (constraint_' P) (state_add src (state_mul vec (5404319552844595 / 9007199254740992))) \<noteq> NOENTRY \<and>
       checkConstraintType (constraint_' P) (state_add src (state_mul vec (3152519739159347 / 4503599627370496))) \<noteq> NOENTRY \<and>
       checkConstraintType (constraint_' P) (state_add src (state_mul vec (7205759403792793 / 9007199254740992))) \<noteq> NOENTRY \<and>
       checkConstraintType (constraint_' P) (state_add src (state_mul vec (2026619832316723 / 2251799813685248))) \<noteq> NOENTRY \<and>
       checkConstraintType (constraint_' P) (state_add src (state_mul vec (9007199254740991 / 9007199254740992))) \<noteq> NOENTRY)"
    by (subst RRT_checkCollision_loop_step [OF _ ratio_3]) (simp_all add: l3)
  have l1: "RRT_checkCollision_loop P src vec (3602879701896397 / 36028797018963968) =
     Some (checkConstraintType (constraint_' P) (state_add src (state_mul vec (3602879701896397 / 36028797018963968))) \<noteq> NOENTRY \<and>
       checkConstraintType (constraint_' P) (state_add src (state_mul vec (3602879701896397 / 18014398509481984))) \<noteq> NOENTRY \<and>
       checkConstraintType (constraint_' P) (state_add src (state_mul vec (1351079888211149 / 4503599627370496))) \<noteq> NOENTRY \<and>
       checkConstraintType (constraint_' P) (state_add src (state_mul vec (3602879701896397 / 9007199254740992))) \<noteq> NOENTRY \<and>
       checkConstraintType (constraint_' P) (state_add src (state_mul vec (1 / 2))) \<noteq> NOENTRY \<and>
       checkConstraintType (constraint_' P) (state_add src (state_mul vec (5404319552844595 / 9007199254740992))) \<noteq> NOENTRY \<and>
       checkConstraintType (constraint_' P) (state_add src (state_mul vec (3152519739159347 / 4503599627370496))) \<noteq> NOENTRY \<and>
       checkConstraintType (constraint_' P) (state_add src (state_mul vec (7205759403792793 / 9007199254740992))) \<noteq> NOENTRY \<and>
       checkConstraintType (constraint_' P) (state_add src (state_mul vec (2026619832316723 / 2251799813685248))) \<noteq> NOENTRY \<and>
       checkConstraintType (constraint_' P) (state_add src (state_mul vec (9007199254740991 / 9007199254740992))) \<noteq> NOENTRY)"
    by (subst RRT_checkCollision_loop_step [OF _ ratio_2]) (simp_all add: l2)
  have l0: "RRT_checkCollision_loop P src vec (0) =
     Some (checkConstraintType (constraint_' P) (state_add src (state_mul vec (0))) \<noteq> NOENTRY \<and>
       checkConstraintType (constraint_' P) (state_add src (state_mul vec (3602879701896397 / 36028797018963968))) \<noteq> NOENTRY \<and>
       checkConstraintType (constraint_' P) (state_add src (state_mul vec (3602879701896397 / 18014398509481984))) \<noteq> NOENTRY \<and>
       checkConstraintType (constraint_' P) (state_add src (state_mul vec (1351079888211149 / 4503599627370496))) \<noteq> NOENTRY \<and>
       checkConstraintType (constraint_' P) (state_add src (state_mul vec (3602879701896397 / 9007199254740992))) \<noteq> NOENTRY \<and>
       checkConstraintType (constraint_' P) (state_add src (state_mul vec (1 / 2))) \<noteq> NOENTRY \<and>
       checkConstraintType (constraint_' P) (state_add src (state_mul vec (5404319552844595 / 9007199254740992))) \<noteq> NOENTRY \<and>
       checkConstraintType (constraint_' P) (state_add src (state_mul vec (3152519739159347 / 4503599627370496))) \<noteq> NOENTRY \<and>
       checkConstraintType (constraint_' P) (state_add src (state_mul vec (7205759403792793 / 9007199254740992))) \<noteq> NOENTRY \<and>
       checkConstraintType (constraint_' P) (state_add src (state_mul vec (2026619832316723 / 2251799813685248))) \<noteq> NOENTRY \<and>
       checkConstraintType (constraint_' P) (state_add src (state_mul vec (9007199254740991 / 9007199254740992))) \<noteq> NOENTRY)"
    by (subst RRT_checkCollision_loop_step [OF _ ratio_1]) (simp_all add: l1)
  from l0 show ?thesis
    by simp
qed

lemma RRT_segment_points:
  "RRT_segment P a b =
     (\<forall>r\<in>set [0,
                3602879701896397 / 36028797018963968,
                3602879701896397 / 18014398509481984,
                1351079888211149 / 4503599627370496,
                3602879701896397 / 9007199254740992,
                1 / 2,
                5404319552844595 / 9007199254740992,
                3152519739159347 / 4503599627370496,
                7205759403792793 / 9007199254740992,
                2026619832316723 / 2251799813685248,
                9007199254740991 / 9007199254740992].
        checkConstraintType (constraint_' P) (state_add a (state_mul (state_sub b a) r)) \<noteq> NOENTRY)"
  by (simp add: RRT_segment_def RRT_checkCollision_def RRT_checkCollision_loop_points)

lemma RRT_checkCollision_segment:
  "RRT_checkCollision P a b = Some (RRT_segment P (rrt_state a) (rrt_state b))"
  by (simp add: RRT_segment_def RRT_checkCollision_def RRT_checkCollision_loop_points)

section \<open>Configuration of the goal sampling rate\<close>

text \<open>
  For every rate outside \<open>[0, 1]\<close> the configuration fails, at construction and
  through the setter, and for every rate in \<open>[0, 1]\<close> it succeeds and stores the rate.
  The error is an invalid-argument error in Informed RRT* and a runtime error in RRT.
\<close>

lemma goal_sampling_rate_configured:
  "(\<not> (0 \<le> r \<and> r \<le> 1) \<longrightarrow>
      RRT_setGoalSamplingRate P r = Inl RuntimeError \<and>
      RRT_new C m r e = Inl RuntimeError \<and>
      setGoalSamplingRate Q r = Inl InvalidArgument \<and>
      InformedRRTStar_new C m r e R g = Inl InvalidArgument) \<and>
   (0 \<le> r \<and> r \<le> 1 \<longrightarrow>
      (\<exists>P1. RRT_setGoalSamplingRate P r = Inr P1 \<and> goal_sampling_rate_' P1 = r) \<and>
      (\<exists>P1. RRT_new C m r e = Inr P1 \<and> goal_sampling_rate_' P1 = r) \<and>
      (\<exists>Q1. setGoalSamplingRate Q r = Inr Q1 \<and> goal_sampling_rate_' Q1 = r) \<and>
      (\<exists>Q1. InformedRRTStar_new C m r e R g = Inr Q1 \<and> goal_sampling_rate_' Q1 = r))"
  by (simp add: RRT_setGoalSamplingRate_def RRT_new_def setGoalSamplingRate_def
      InformedRRTStar_new_def)

text \<open>
  C2 holds for Informed RRT* and fails for RRT: for the rate \<open>3/2\<close> the setter and the
  constructor of RRT throw \<^verbatim>\<open>std::runtime_error\<close>, where those of Informed RRT*, with
  the same test and the same message, throw \<^verbatim>\<open>std::invalid_argument\<close>.
\<close>

theorem C2_RRT_rate_error_is_runtime_error:
  "RRT_setGoalSamplingRate rrt_example (3 / 2) = Inl RuntimeError \<and>
   RRT_new free_space 5 (3 / 2) 2 = Inl RuntimeError \<and>
   setGoalSamplingRate informed_example (3 / 2) = Inl InvalidArgument \<and>
   InformedRRTStar_new free_space 5 (3 / 2) 2 10 1 = Inl InvalidArgument \<and>
   Inl RuntimeError \<noteq> (Inl InvalidArgument :: error + RRT)"
  by (simp add: RRT_setGoalSamplingRate_def RRT_new_def setGoalSamplingRate_def
      InformedRRTStar_new_def)

section \<open>Steering\<close>

text \<open>
  C5: for every source node, target and expansion distance, if the distance from the
  source state to the target is below the expansion distance, the steered node has the
  target's state and the cost of the source plus that distance; otherwise its cost is
  the cost of the source plus the expansion distance; in both cases its parent is the
  source. The nodes of RRT carry no cost: there the state and the parent are as stated.
\<close>

theorem C5_generateSteerNode:
  "(distanceFrom (state (node_list ! src)) (state dst_node) < expand_dist \<longrightarrow>
      state (generateSteerNode P node_list src dst_node expand_dist) = state dst_node \<and>
      cost (generateSteerNode P node_list src dst_node expand_dist) =
        cost (node_list ! src) + distanceFrom (state (node_list ! src)) (state dst_node)) \<and>
   (\<not> distanceFrom (state (node_list ! src)) (state dst_node) < expand_dist \<longrightarrow>
      cost (generateSteerNode P node_list src dst_node expand_dist) =
        cost (node_list ! src) + expand_dist) \<and>
   parent (generateSteerNode P node_list src dst_node expand_dist) = Some src \<and>
   (distanceFrom (rrt_state src_node) (rrt_state dst_node1) < expand_dist \<longrightarrow>
      rrt_state (RRT_generateSteerNode P1 src_node dst_node1 expand_dist) = rrt_state dst_node1) \<and>
   rrt_parent (RRT_generateSteerNode P1 src_node dst_node1 expand_dist) = Some src_node"
  by (simp add: generateSteerNode_def RRT_generateSteerNode_def steer_state_def Let_def)

theorem C5_generateSteerNode_witness:
  "state (generateSteerNode informed_example [\<lparr>state = [0, 0], parent = None, cost = 3\<rparr>] 0
            \<lparr>state = [1, 0], parent = None, cost = 0\<rparr> 2) = [1, 0] \<and>
   cost (generateSteerNode informed_example [\<lparr>state = [0, 0], parent = None, cost = 3\<rparr>] 0
            \<lparr>state = [1, 0], parent = None, cost = 0\<rparr> 2) = 4 \<and>
   cost (generateSteerNode informed_example [\<lparr>state = [0, 0], parent = None, cost = 3\<rparr>] 0
            \<lparr>state = [5, 0], parent = None, cost = 0\<rparr> 2) = 5 \<and>
   rrt_state (RRT_generateSteerNode rrt_example (RRT_Node [0, 0] None) (RRT_Node [1, 0] None) 2)
     = [1, 0]"
  using C5_generateSteerNode [of "[\<lparr>state = [0, 0], parent = None, cost = 3\<rparr>]" 0
      "\<lparr>state = [1, 0], parent = None, cost = 0\<rparr>" 2 informed_example
      "RRT_Node [0, 0] None" "RRT_Node [1, 0] None" rrt_example]
    C5_generateSteerNode [of "[\<lparr>state = [0, 0], parent = None, cost = 3\<rparr>]" 0
      "\<lparr>state = [5, 0], parent = None, cost = 0\<rparr>" 2 informed_example
      "RRT_Node [0, 0] None" "RRT_Node [1, 0] None" rrt_example]
  by (simp add: distanceFrom_axis)

section \<open>A failed solve and the stored result\<close>

text \<open>
  C3 holds for Informed RRT*, which clears the result before it looks for the best
  node, and fails for RRT, whose \<^verbatim>\<open>return false\<close> inside the sampling loop comes
  before \<^verbatim>\<open>result_.clear()\<close>: with one sampling pass allowed and a goal out of reach,
  the call returns false and the path of the previous call is still stored.
\<close>

theorem C3_RRT_failed_solve_keeps_result:
  "RRT_solve rrt_example [0, 0] [9, 0] [(1 / 2, [1, 0])] = Some (False, rrt_example) \<and>
   result_' rrt_example = [ [0, 0], [1, 0], [2, 0] ]"
  by (simp add: RRT_solve_def rrt_example_def free_space_def RRT_getNearestNodeIndex_def
      RRT_generateSteerNode_def steer_state_def RRT_checkCollision_segment RRT_segment_points
      distanceFrom_axis DBL_MAX_def Let_def)

section \<open>Choosing the parent of a candidate\<close>

lemma arg_min_list_Cons:
  "xs \<noteq> [] \<Longrightarrow> arg_min_list f (x # xs) = (if f x \<le> f (arg_min_list f xs) then x else arg_min_list f xs)"
  by (cases xs) (simp_all add: Let_def)

lemma arg_min_list_le: "x \<in> set xs \<Longrightarrow> f (arg_min_list f xs) \<le> f x"
proof -
  assume x: "x \<in> set xs"
  then have "xs \<noteq> []" by auto
  then have "f (arg_min_list f xs) = Min (f ` set xs)" by (rule f_arg_min_list_f)
  with x show ?thesis by simp
qed

lemma chooseParentNode_loop_filter:
  "chooseParentNode_loop P t nl near mp mc =
   chooseParentNode_loop P t nl
     (filter (\<lambda>i. checkCollision (constraint_' P) (state t) (state (nl ! i))) near) mp mc"
  by (induction near arbitrary: mp mc) (simp_all add: Let_def)

lemma chooseParentNode_loop_passing:
  assumes "\<forall>i\<in>set F. checkCollision (constraint_' P) (state t) (state (nl ! i))"
  shows "chooseParentNode_loop P t nl F mp mc =
     (if \<exists>i\<in>set F. cost (nl ! i) + distanceFrom (state t) (state (nl ! i)) < mc
      then (Some (arg_min_list (\<lambda>i. cost (nl ! i) + distanceFrom (state t) (state (nl ! i))) F),
            cost (nl ! arg_min_list (\<lambda>i. cost (nl ! i) + distanceFrom (state t) (state (nl ! i))) F)
              + distanceFrom (state t)
                  (state (nl ! arg_min_list (\<lambda>i. cost (nl ! i) + distanceFrom (state t) (state (nl ! i))) F)))
      else (mp, mc))"
  using assms
proof (induction F arbitrary: mp mc)
  case Nil
  then show ?case by simp
next
  case (Cons j rest)
  define via where "via = (\<lambda>i. cost (nl ! i) + distanceFrom (state t) (state (nl ! i)))"
  have cc: "checkCollision (constraint_' P) (state t) (state (nl ! j))"
    and rest: "\<forall>i\<in>set rest. checkCollision (constraint_' P) (state t) (state (nl ! i))"
    using Cons.prems by simp_all
  note IH = Cons.IH [OF rest, folded via_def]
  have min_rest: "\<And>i. i \<in> set rest \<Longrightarrow> via (arg_min_list via rest) \<le> via i"
    by (rule arg_min_list_le)
  have in_rest: "rest \<noteq> [] \<Longrightarrow> arg_min_list via rest \<in> set rest"
    by (rule arg_min_list_in)
  show ?case
  proof (cases "via j < mc")
    case True
    have step: "chooseParentNode_loop P t nl (j # rest) mp mc =
        chooseParentNode_loop P t nl rest (Some j) (via j)"
      using True cc by (simp add: via_def Let_def)
    show ?thesis
    proof (cases "\<exists>i\<in>set rest. via i < via j")
      case ex: True
      then have ne: "rest \<noteq> []" by auto
      from ex min_rest have "via (arg_min_list via rest) < via j" by force
      then have "arg_min_list via (j # rest) = arg_min_list via rest"
        using ne by (simp add: arg_min_list_Cons)
      then show ?thesis
        unfolding step using ex True IH [of "Some j" "via j"]
        by (auto simp: via_def)
    next
      case nex: False
      have "arg_min_list via (j # rest) = j"
      proof (cases "rest = []")
        case True
        then show ?thesis by simp
      next
        case False
        with in_rest nex have "via j \<le> via (arg_min_list via rest)" by force
        with False show ?thesis by (simp add: arg_min_list_Cons)
      qed
      then show ?thesis
        unfolding step using nex True IH [of "Some j" "via j"]
        by (auto simp: via_def)
    qed
  next
    case False
    have step: "chooseParentNode_loop P t nl (j # rest) mp mc =
        chooseParentNode_loop P t nl rest mp mc"
      using False by (simp add: via_def Let_def)
    show ?thesis
    proof (cases "\<exists>i\<in>set rest. via i < mc")
      case ex: True
      then have ne: "rest \<noteq> []" by auto
      from ex min_rest have "via (arg_min_list via rest) < mc" by force
      with False have "\<not> via j \<le> via (arg_min_list via rest)" by simp
      then have "arg_min_list via (j # rest) = arg_min_list via rest"
        using ne by (simp add: arg_min_list_Cons)
      then show ?thesis
        unfolding step using ex False IH [of mp mc]
        by (auto simp: via_def)
    next
      case nex: False
      then show ?thesis
        unfolding step using False IH [of mp mc]
        by (auto simp: via_def)
    qed
  qed
qed

lemma chooseParentNode_eq:
  "chooseParentNode P t nl near =
     (let F = filter (\<lambda>i. checkCollision (constraint_' P) (state t) (state (nl ! i))) near;
          via = (\<lambda>i. cost (nl ! i) + distanceFrom (state t) (state (nl ! i)))
      in if \<exists>i\<in>set F. via i < DBL_MAX
         then t\<lparr>parent := Some (arg_min_list via F), cost := via (arg_min_list via F)\<rparr>
         else t)"
proof -
  define F where "F = filter (\<lambda>i. checkCollision (constraint_' P) (state t) (state (nl ! i))) near"
  define via where "via = (\<lambda>i. cost (nl ! i) + distanceFrom (state t) (state (nl ! i)))"
  have pass: "\<forall>i\<in>set F. checkCollision (constraint_' P) (state t) (state (nl ! i))"
    by (simp add: F_def)
  have loop: "chooseParentNode_loop P t nl near (parent t) DBL_MAX =
      (if \<exists>i\<in>set F. via i < DBL_MAX
       then (Some (arg_min_list via F), via (arg_min_list via F))
       else (parent t, DBL_MAX))"
    unfolding via_def F_def
    by (subst chooseParentNode_loop_filter) (simp add: chooseParentNode_loop_passing)
  show ?thesis
  proof (cases "\<exists>i\<in>set F. via i < DBL_MAX")
    case True
    then have ne: "F \<noteq> []" by auto
    from True arg_min_list_le [of _ F via] have "via (arg_min_list via F) < DBL_MAX"
      by force
    then show ?thesis
      using True loop by (simp add: chooseParentNode_def Let_def F_def [symmetric] via_def [symmetric])
  next
    case False
    then show ?thesis
      using loop by (simp add: chooseParentNode_def Let_def F_def [symmetric] via_def [symmetric])
  qed
qed

text \<open>
  C10, as stated, fails: the running minimum starts at \<^verbatim>\<open>DBL_MAX\<close>, so a near node that
  passes the collision test with the cost \<^verbatim>\<open>DBL_MAX\<close> through it does not improve it
  and the candidate is left unchanged, where the reference takes that node.
\<close>

theorem C10_counterexample:
  "chooseParentNode informed_example saturated_candidate saturated_tree [1] \<noteq>
   chooseParentNode_naive informed_example saturated_candidate saturated_tree [1]"
  by (simp add: chooseParentNode_def chooseParentNode_naive_def saturated_tree_def
      saturated_candidate_def informed_example_def free_space_def distanceFrom_axis Let_def)

text \<open>
  C10, amended: for every candidate, node list and near indices of the list such that
  the cost through every near node that passes the collision test is below
  \<^verbatim>\<open>DBL_MAX\<close>, the value the running minimum starts from, \<^verbatim>\<open>chooseParentNode\<close>, which
  tests a collision only when the cost improves the running minimum, returns the same
  node as the reference that filters by the collision test first and takes the first
  node of minimal cost.
\<close>

theorem C10_chooseParentNode_lazy_eq_naive:
  assumes "\<forall>i\<in>set near. i < length nl"
    and "\<forall>i\<in>set near. checkCollision (constraint_' P) (state t) (state (nl ! i)) \<longrightarrow>
           cost (nl ! i) + distanceFrom (state (nl ! i)) (state t) < DBL_MAX"
  shows "chooseParentNode P t nl near = chooseParentNode_naive P t nl near"
proof -
  define F where "F = filter (\<lambda>i. checkCollision (constraint_' P) (state t) (state (nl ! i))) near"
  have "(\<exists>i\<in>set F. cost (nl ! i) + distanceFrom (state t) (state (nl ! i)) < DBL_MAX) \<longleftrightarrow> F \<noteq> []"
  proof
    assume "F \<noteq> []"
    then obtain i where "i \<in> set F" by (cases F) auto
    with assms(2) show "\<exists>i\<in>set F. cost (nl ! i) + distanceFrom (state t) (state (nl ! i)) < DBL_MAX"
      by (auto simp: F_def distanceFrom_sym [of "state t"])
  qed auto
  then show ?thesis
    by (simp add: chooseParentNode_eq chooseParentNode_naive_def Let_def F_def [symmetric]
        distanceFrom_sym [of "state t"])
qed

theorem C10_chooseParentNode_lazy_eq_naive_witness:
  "chooseParentNode informed_example example_candidate example_tree [0, 1, 2] =
   chooseParentNode_naive informed_example example_candidate example_tree [0, 1, 2]"
proof -
  have "\<forall>i\<in>set [0, 1, 2]. i < length example_tree"
    by (simp add: example_tree_def)
  moreover have "\<forall>i\<in>set [0, 1, 2].
      checkCollision (constraint_' informed_example) (state example_candidate)
        (state (example_tree ! i)) \<longrightarrow>
      cost (example_tree ! i) + distanceFrom (state (example_tree ! i)) (state example_candidate)
        < DBL_MAX"
    by (simp add: example_tree_def example_candidate_def distanceFrom_axis DBL_MAX_def)
  ultimately show ?thesis
    by (rule C10_chooseParentNode_lazy_eq_naive)
qed

text \<open>
  C6, as stated, fails: the only near node passes the collision test, its cost through
  it is \<^verbatim>\<open>DBL_MAX\<close>, the value the running minimum starts from, and the candidate keeps
  its parent and its cost.
\<close>

theorem C6_counterexample:
  "checkCollision (constraint_' informed_example) (state saturated_candidate)
     (state (saturated_tree ! 1)) \<and>
   chooseParentNode informed_example saturated_candidate saturated_tree [1] = saturated_candidate \<and>
   parent saturated_candidate \<noteq> Some 1"
  by (simp add: chooseParentNode_def saturated_tree_def saturated_candidate_def
      informed_example_def free_space_def distanceFrom_axis Let_def)

text \<open>
  C6, amended: for every candidate, node list and near indices of the list such that
  the cost through every near node that passes the collision test is below
  \<^verbatim>\<open>DBL_MAX\<close>, \<^verbatim>\<open>chooseParentNode\<close> keeps the state; if a near node passes
  \<^verbatim>\<open>checkCollision(candidate.state, tree[i].state)\<close>, the candidate's parent is such a
  node \<open>b\<close>, minimal in \<^verbatim>\<open>tree[b].cost + dist(tree[b].state, candidate.state)\<close> among
  the passing ones, and the candidate's cost is that value; if none passes, or there is
  no near index, the candidate is unchanged.
\<close>

theorem C6_chooseParentNode:
  assumes "\<forall>i\<in>set near. i < length nl"
    and "\<forall>i\<in>set near. checkCollision (constraint_' P) (state t) (state (nl ! i)) \<longrightarrow>
           cost (nl ! i) + distanceFrom (state (nl ! i)) (state t) < DBL_MAX"
  shows "state (chooseParentNode P t nl near) = state t \<and>
    ((\<forall>i\<in>set near. \<not> checkCollision (constraint_' P) (state t) (state (nl ! i))) \<longrightarrow>
       chooseParentNode P t nl near = t) \<and>
    ((\<exists>i\<in>set near. checkCollision (constraint_' P) (state t) (state (nl ! i))) \<longrightarrow>
       (\<exists>b\<in>set near.
          checkCollision (constraint_' P) (state t) (state (nl ! b)) \<and>
          parent (chooseParentNode P t nl near) = Some b \<and>
          cost (chooseParentNode P t nl near) =
            cost (nl ! b) + distanceFrom (state (nl ! b)) (state t) \<and>
          (\<forall>i\<in>set near. checkCollision (constraint_' P) (state t) (state (nl ! i)) \<longrightarrow>
             cost (nl ! b) + distanceFrom (state (nl ! b)) (state t)
               \<le> cost (nl ! i) + distanceFrom (state (nl ! i)) (state t))))"
proof -
  define F where "F = filter (\<lambda>i. checkCollision (constraint_' P) (state t) (state (nl ! i))) near"
  define via where "via = (\<lambda>i. cost (nl ! i) + distanceFrom (state t) (state (nl ! i)))"
  have via: "\<And>i. cost (nl ! i) + distanceFrom (state (nl ! i)) (state t) = via i"
    by (simp add: via_def distanceFrom_sym [of "state t"])
  have ex: "(\<exists>i\<in>set F. via i < DBL_MAX) \<longleftrightarrow> F \<noteq> []"
  proof
    assume "F \<noteq> []"
    then obtain i where "i \<in> set F" by (cases F) auto
    with assms(2) show "\<exists>i\<in>set F. via i < DBL_MAX"
      by (auto simp: F_def via)
  qed auto
  have eq: "chooseParentNode P t nl near =
      (if F \<noteq> [] then t\<lparr>parent := Some (arg_min_list via F), cost := via (arg_min_list via F)\<rparr> else t)"
    using ex by (simp add: chooseParentNode_eq Let_def F_def [symmetric] via_def [symmetric])
  have st: "state (chooseParentNode P t nl near) = state t"
    by (simp add: eq)
  have none: "(\<forall>i\<in>set near. \<not> checkCollision (constraint_' P) (state t) (state (nl ! i))) \<longrightarrow>
       chooseParentNode P t nl near = t"
    by (auto simp: eq F_def filter_empty_conv)
  have some: "(\<exists>i\<in>set near. checkCollision (constraint_' P) (state t) (state (nl ! i))) \<longrightarrow>
       (\<exists>b\<in>set near.
          checkCollision (constraint_' P) (state t) (state (nl ! b)) \<and>
          parent (chooseParentNode P t nl near) = Some b \<and>
          cost (chooseParentNode P t nl near) = via b \<and>
          (\<forall>i\<in>set near. checkCollision (constraint_' P) (state t) (state (nl ! i)) \<longrightarrow>
             via b \<le> via i))"
  proof
    assume "\<exists>i\<in>set near. checkCollision (constraint_' P) (state t) (state (nl ! i))"
    then have ne: "F \<noteq> []" by (auto simp: F_def filter_empty_conv)
    then have "arg_min_list via F \<in> set F" by (rule arg_min_list_in)
    then have b: "arg_min_list via F \<in> set near"
      "checkCollision (constraint_' P) (state t) (state (nl ! arg_min_list via F))"
      by (simp_all add: F_def)
    have "\<forall>i\<in>set near. checkCollision (constraint_' P) (state t) (state (nl ! i)) \<longrightarrow>
        via (arg_min_list via F) \<le> via i"
      by (auto simp: F_def intro!: arg_min_list_le)
    with b ne show "\<exists>b\<in>set near.
          checkCollision (constraint_' P) (state t) (state (nl ! b)) \<and>
          parent (chooseParentNode P t nl near) = Some b \<and>
          cost (chooseParentNode P t nl near) = via b \<and>
          (\<forall>i\<in>set near. checkCollision (constraint_' P) (state t) (state (nl ! i)) \<longrightarrow>
             via b \<le> via i)"
      by (intro bexI [of _ "arg_min_list via F"]) (simp_all add: eq)
  qed
  from st none some show ?thesis
    unfolding via by blast
qed

theorem C6_chooseParentNode_witness:
  "parent (chooseParentNode informed_example example_candidate example_tree [0, 1, 2]) \<noteq> Some 2 \<and>
   cost (chooseParentNode informed_example example_candidate example_tree [0, 1, 2]) = 3 \<and>
   chooseParentNode informed_example example_candidate example_tree [] = example_candidate"
proof -
  have a: "\<forall>i\<in>set [0, 1, 2]. i < length example_tree"
    by (simp add: example_tree_def)
  have b: "\<forall>i\<in>set [0, 1, 2].
      checkCollision (constraint_' informed_example) (state example_candidate)
        (state (example_tree ! i)) \<longrightarrow>
      cost (example_tree ! i) + distanceFrom (state (example_tree ! i)) (state example_candidate)
        < DBL_MAX"
    by (simp add: example_tree_def example_candidate_def distanceFrom_axis DBL_MAX_def)
  have c: "\<forall>i\<in>set ([]::nat list). i < length example_tree"
    "\<forall>i\<in>set ([]::nat list).
      checkCollision (constraint_' informed_example) (state example_candidate)
        (state (example_tree ! i)) \<longrightarrow>
      cost (example_tree ! i) + distanceFrom (state (example_tree ! i)) (state example_candidate)
        < DBL_MAX"
    by simp_all
  show ?thesis
    using C6_chooseParentNode [OF a b] C6_chooseParentNode [OF c]
    by (auto simp: example_tree_def example_candidate_def informed_example_def free_space_def
        distanceFrom_axis)
qed


section \<open>Rewiring\<close>

lemma rewireNearNodes_length: "length (rewireNearNodes P nl near) = length nl"
  by (induction near arbitrary: nl) (simp_all add: Let_def)

lemma rewire_keeps_last:
  assumes "nl \<noteq> []"
    and "cost (last nl) + distanceFrom (state (nl ! j)) (state (last nl)) < cost (nl ! j)"
  shows "last (nl[j := x]) = last nl"
proof -
  have "j \<noteq> length nl - 1"
  proof
    assume "j = length nl - 1"
    with assms(1) have "nl ! j = last nl" by (simp add: last_conv_nth)
    with assms(2) show False by (simp add: distanceFrom_self)
  qed
  with assms(1) show ?thesis by (simp add: last_conv_nth)
qed

lemma rewireNearNodes_last:
  "nl \<noteq> [] \<Longrightarrow> last (rewireNearNodes P nl near) = last nl"
proof (induction near arbitrary: nl)
  case Nil
  then show ?case by simp
next
  case (Cons j rest)
  then show ?case
    by (simp add: Let_def rewire_keeps_last)
qed

lemma rewireNearNodes_nth:
  assumes "nl \<noteq> []" and "i < length nl"
  shows "rewireNearNodes P nl near ! i =
     (if i \<in> set near \<and>
         cost (last nl) + distanceFrom (state (nl ! i)) (state (last nl)) < cost (nl ! i) \<and>
         checkCollision (constraint_' P) (state (last nl)) (state (nl ! i))
      then (nl ! i)\<lparr>parent := Some (length nl - 1),
                    cost := cost (last nl) + distanceFrom (state (nl ! i)) (state (last nl))\<rparr>
      else nl ! i)"
  using assms
proof (induction near arbitrary: nl)
  case Nil
  then show ?case by simp
next
  case (Cons j rest)
  let ?c = "cost (last nl) + distanceFrom (state (nl ! j)) (state (last nl))"
  show ?case
  proof (cases "?c < cost (nl ! j) \<and> checkCollision (constraint_' P) (state (last nl)) (state (nl ! j))")
    case True
    let ?nl = "nl[j := (nl ! j)\<lparr>parent := Some (length nl - 1), cost := ?c\<rparr>]"
    have step: "rewireNearNodes P nl (j # rest) = rewireNearNodes P ?nl rest"
      using True by (simp add: Let_def)
    have last: "last ?nl = last nl"
      using Cons.prems(1) True by (simp add: rewire_keeps_last)
    have ne: "?nl \<noteq> []" and len: "i < length ?nl"
      using Cons.prems by simp_all
    show ?thesis
    proof (cases "i = j")
      case True
      with \<open>i < length nl\<close> show ?thesis
        unfolding step Cons.IH [OF ne len] last
        using \<open>?c < cost (nl ! j) \<and> _\<close> by simp
    next
      case False
      with \<open>i < length nl\<close> show ?thesis
        unfolding step Cons.IH [OF ne len] last by simp
    qed
  next
    case False
    then have step: "rewireNearNodes P nl (j # rest) = rewireNearNodes P nl rest"
      by (auto simp: Let_def)
    show ?thesis
      unfolding step Cons.IH [OF Cons.prems] using False by auto
  qed
qed

text \<open>
  C7: for every non-empty node list, whose last node is the new one, and near indices of
  the list: a node is reassigned the new node as parent and the cost
  \<^verbatim>\<open>new.cost + dist(new.state, tree[i].state)\<close> exactly when it is a near node, that
  cost is strictly below its cost and \<^verbatim>\<open>checkCollision(new.state, tree[i].state)\<close>
  holds; every other node is unchanged. So each node keeps its cost or has it strictly
  decreased, and no cost increases.
\<close>

theorem C7_rewireNearNodes:
  assumes "nl \<noteq> []" and "\<forall>i\<in>set near. i < length nl"
  shows "length (rewireNearNodes P nl near) = length nl \<and>
    (\<forall>i<length nl.
       rewireNearNodes P nl near ! i =
         (if i \<in> set near \<and>
             cost (last nl) + distanceFrom (state (last nl)) (state (nl ! i)) < cost (nl ! i) \<and>
             checkCollision (constraint_' P) (state (last nl)) (state (nl ! i))
          then (nl ! i)\<lparr>parent := Some (length nl - 1),
                        cost := cost (last nl) + distanceFrom (state (last nl)) (state (nl ! i))\<rparr>
          else nl ! i) \<and>
       (rewireNearNodes P nl near ! i = nl ! i \<or>
        cost (rewireNearNodes P nl near ! i) < cost (nl ! i)) \<and>
       cost (rewireNearNodes P nl near ! i) \<le> cost (nl ! i))"
  using assms(1)
  by (auto simp: rewireNearNodes_length rewireNearNodes_nth distanceFrom_sym [of "state (last nl)"])

theorem C7_rewireNearNodes_witness:
  "rewireNearNodes informed_example example_tree1 [0, 1, 2] ! 2 =
     \<lparr>state = [2, 0], parent = Some 3, cost = 4\<rparr> \<and>
   rewireNearNodes informed_example example_tree1 [0, 1, 2] ! 1 = example_tree1 ! 1"
proof -
  have a: "example_tree1 \<noteq> []"
    by (simp add: example_tree1_def)
  have b: "\<forall>i\<in>set [0, 1, 2]. i < length example_tree1"
    by (simp add: example_tree1_def example_tree_def)
  have "\<forall>i<length example_tree1.
       rewireNearNodes informed_example example_tree1 [0, 1, 2] ! i =
         (if i \<in> set [0, 1, 2] \<and>
             cost (last example_tree1) +
               distanceFrom (state (last example_tree1)) (state (example_tree1 ! i))
               < cost (example_tree1 ! i) \<and>
             checkCollision (constraint_' informed_example) (state (last example_tree1))
               (state (example_tree1 ! i))
          then (example_tree1 ! i)\<lparr>parent := Some (length example_tree1 - 1),
                 cost := cost (last example_tree1) +
                   distanceFrom (state (last example_tree1)) (state (example_tree1 ! i))\<rparr>
          else example_tree1 ! i)"
    using C7_rewireNearNodes [OF a b, of informed_example] by blast
  then have "\<forall>i<4.
       rewireNearNodes informed_example example_tree1 [0, 1, 2] ! i =
         (if i \<in> set [0, 1, 2] \<and>
             cost (last example_tree1) +
               distanceFrom (state (last example_tree1)) (state (example_tree1 ! i))
               < cost (example_tree1 ! i) \<and>
             checkCollision (constraint_' informed_example) (state (last example_tree1))
               (state (example_tree1 ! i))
          then (example_tree1 ! i)\<lparr>parent := Some (length example_tree1 - 1),
                 cost := cost (last example_tree1) +
                   distanceFrom (state (last example_tree1)) (state (example_tree1 ! i))\<rparr>
          else example_tree1 ! i)"
    by (simp add: example_tree1_def example_tree_def)
  from this [rule_format, of 2] this [rule_format, of 1] show ?thesis
    by (simp add: example_tree1_def example_tree_def informed_example_def free_space_def
        distanceFrom_axis)
qed

section \<open>The sampling loop of RRT and its budget\<close>

lemma rrt_wall_fields:
  "goal_sampling_rate_' rrt_wall = 0" "expand_dist_' rrt_wall = 2" "max_sampling_num_' rrt_wall = 1"
  "getDim (constraint_' rrt_wall) = 2"
  "checkConstraintType (constraint_' rrt_wall) x = (if 3 / 2 \<le> x ! 0 \<and> x ! 0 \<le> 5 / 2 then NOENTRY else FREE)"
  by (simp_all add: rrt_wall_def wall_space_def)

lemma rrt_wall_segments:
  "RRT_segment rrt_wall [0, 0] [1, 0]" "\<not> RRT_segment rrt_wall [1, 0] [3, 0]"
  by (simp_all add: RRT_segment_points rrt_wall_fields state_add_def state_sub_def state_mul_def)

text \<open>
  The eleventh test, next to the destination, rejects a segment that ends inside the
  forbidden strip; and the rounded ratio \<^verbatim>\<open>0.8999999999999999\<close> lets a segment pass
  whose point at nine tenths lies on the border of the strip.
\<close>

lemma rrt_wall_segment_last_test:
  "\<not> RRT_segment rrt_wall [0, 0] [13 / 8, 0]"
proof
  assume "RRT_segment rrt_wall [0, 0] [13 / 8, 0]"
  then have "checkConstraintType (constraint_' rrt_wall)
      (state_add [0, 0] (state_mul (state_sub [13 / 8, 0] [0, 0])
         (9007199254740991 / 9007199254740992))) \<noteq> NOENTRY"
    unfolding RRT_segment_points by (simp del: divide_le_eq_numeral1 le_divide_eq_numeral1)
  then show False
    by (simp add: rrt_wall_fields state_add_def state_sub_def state_mul_def)
qed

lemma rrt_wall_segment_rounded_ratio:
  "RRT_segment rrt_wall [- 48, 0] [7, 0]"
  by (simp add: RRT_segment_points rrt_wall_fields state_add_def state_sub_def state_mul_def)

text \<open>
  C8, as stated, fails: a pass whose sample is discarded is not counted. With
  \<^verbatim>\<open>max_sampling_num_ = 1\<close>, a first sample inside the forbidden strip and a second one
  outside, the loop has not returned after one pass and returns false after the second.
\<close>

theorem C8_counterexample:
  "RRT_solve_loop rrt_wall [9, 0] [(1 / 2, [2, 0])] [RRT_Node [0, 0] None] 0 = None \<and>
   RRT_solve_loop rrt_wall [9, 0] [(1 / 2, [2, 0]), (1 / 2, [1, 0])] [RRT_Node [0, 0] None] 0 =
     Some (False, [RRT_Node [0, 0] None, RRT_Node [1, 0] (Some (RRT_Node [0, 0] None))], 1, []) \<and>
   unat (max_sampling_num_' rrt_wall) = 1"
  by (simp add: rrt_wall_fields RRT_getNearestNodeIndex_def
      RRT_generateSteerNode_def steer_state_def RRT_checkCollision_segment rrt_wall_segments
      distanceFrom_axis DBL_MAX_def Let_def)

text \<open>
  C1, as stated, fails: the segment to the appended goal state is not tested. Here the
  new node \<open>(1, 0)\<close> is within \<^verbatim>\<open>expand_dist_\<close> of the goal \<open>(3, 0)\<close>, the call
  succeeds, and the last segment of the path crosses the forbidden strip.
\<close>

theorem C1_counterexample:
  "RRT_solve rrt_wall [0, 0] [3, 0] [(1 / 2, [1, 0])] =
     Some (True, rrt_wall\<lparr>result_' := [ [0, 0], [1, 0], [3, 0] ]\<rparr>) \<and>
   RRT_checkCollision rrt_wall (RRT_Node [1, 0] None) (RRT_Node [3, 0] None) = Some False"
  by (simp add: RRT_solve_def rrt_wall_fields RRT_getNearestNodeIndex_def
      RRT_generateSteerNode_def steer_state_def RRT_checkCollision_segment rrt_wall_segments
      distanceFrom_axis DBL_MAX_def Let_def)

lemma unat_succ:
  assumes "unat (c::32 word) < unat (m::32 word)"
  shows "unat (c + 1) = Suc (unat c)"
proof -
  have "unat m < 2 ^ 32"
    using unsigned_less [of m] by simp
  with assms have "unat c + 1 < 2 ^ 32" by simp
  then show ?thesis by (simp add: unat_word_ariths)
qed

lemma RRT_solve_loop_step:
  assumes "\<not> (goal_sampling_rate_' P < u \<and> checkConstraintType (constraint_' P) x = NOENTRY)"
  shows "RRT_solve_loop P goal ((u, x) # draws) nl cnt =
     (let rand_node = RRT_Node (if goal_sampling_rate_' P < u then x else goal) None;
          idx = RRT_getNearestNodeIndex rand_node nl;
          new_node = RRT_generateSteerNode P (nl ! idx) rand_node (expand_dist_' P);
          accepted = RRT_segment P (rrt_state (nl ! idx)) (rrt_state new_node);
          nl2 = (if accepted then nl @ [new_node] else nl)
      in if accepted \<and> distanceFrom (rrt_state new_node) goal \<le> expand_dist_' P
         then Some (True, nl2 @ [RRT_Node goal (Some (last nl2))], cnt, draws)
         else if max_sampling_num_' P = cnt + 1 then Some (False, nl2, cnt + 1, draws)
         else RRT_solve_loop P goal draws nl2 (cnt + 1))"
proof -
  from assms have "(goal_sampling_rate_' P < u \<and> checkConstraintType (constraint_' P) x = NOENTRY) = False"
    by simp
  then show ?thesis
    by (simp only: RRT_solve_loop.simps if_False Let_def RRT_checkCollision_segment option.case)
qed

lemma RRT_counted_Cons:
  "RRT_counted P ((u, x) # ds) =
     (if goal_sampling_rate_' P < u \<and> checkConstraintType (constraint_' P) x = NOENTRY
      then RRT_counted P ds else Suc (RRT_counted P ds))"
  by (simp add: RRT_counted_def RRT_discarded_def)

lemma RRT_solve_loop_counted:
  assumes "unat cnt < unat (max_sampling_num_' P)"
    and "RRT_solve_loop P goal draws nl cnt = Some (ok, nl1, cnt1, rest)"
  shows "\<exists>used. draws = used @ rest \<and>
           unat cnt + RRT_counted P used \<le> unat (max_sampling_num_' P) \<and>
           (\<not> ok \<longrightarrow> unat cnt + RRT_counted P used = unat (max_sampling_num_' P))"
  using assms
proof (induction draws arbitrary: nl cnt)
  case Nil
  then show ?case by simp
next
  case (Cons d draws)
  obtain u x where d: "d = (u, x)" by (cases d)
  show ?case
  proof (cases "goal_sampling_rate_' P < u \<and> checkConstraintType (constraint_' P) x = NOENTRY")
    case True
    with Cons.prems(2) have "RRT_solve_loop P goal draws nl cnt = Some (ok, nl1, cnt1, rest)"
      by (simp add: d)
    from Cons.IH [OF Cons.prems(1) this] obtain used where
      "draws = used @ rest" "unat cnt + RRT_counted P used \<le> unat (max_sampling_num_' P)"
      "\<not> ok \<longrightarrow> unat cnt + RRT_counted P used = unat (max_sampling_num_' P)"
      by blast
    with True show ?thesis
      by (intro exI [of _ "d # used"]) (simp add: d RRT_counted_Cons)
  next
    case False
    define rand_node where "rand_node = RRT_Node (if goal_sampling_rate_' P < u then x else goal) None"
    define idx where "idx = RRT_getNearestNodeIndex rand_node nl"
    define new_node where "new_node = RRT_generateSteerNode P (nl ! idx) rand_node (expand_dist_' P)"
    define accepted where "accepted = RRT_segment P (rrt_state (nl ! idx)) (rrt_state new_node)"
    define nl2 where "nl2 = (if accepted then nl @ [new_node] else nl)"
    have step: "RRT_solve_loop P goal (d # draws) nl cnt =
       (if accepted \<and> distanceFrom (rrt_state new_node) goal \<le> expand_dist_' P
        then Some (True, nl2 @ [RRT_Node goal (Some (last nl2))], cnt, draws)
        else if max_sampling_num_' P = cnt + 1 then Some (False, nl2, cnt + 1, draws)
        else RRT_solve_loop P goal draws nl2 (cnt + 1))"
      unfolding d RRT_solve_loop_step [OF False]
      by (simp only: Let_def rand_node_def idx_def new_node_def accepted_def nl2_def)
    have cnt1: "unat (cnt + 1) = Suc (unat cnt)"
      using Cons.prems(1) by (rule unat_succ)
    have one: "RRT_counted P [d] = 1"
      using False by (simp add: d RRT_counted_def RRT_discarded_def)
    show ?thesis
    proof (cases "accepted \<and> distanceFrom (rrt_state new_node) goal \<le> expand_dist_' P")
      case True
      with Cons.prems(2) step have "ok" "rest = draws" by simp_all
      with Cons.prems(1) one show ?thesis
        by (intro exI [of _ "[d]"]) simp
    next
      case nosucc: False
      show ?thesis
      proof (cases "max_sampling_num_' P = cnt + 1")
        case True
        with Cons.prems(2) step nosucc have "\<not> ok" "rest = draws" by simp_all
        with True cnt1 one show ?thesis
          by (intro exI [of _ "[d]"]) simp
      next
        case False
        with Cons.prems(2) step nosucc
        have rec: "RRT_solve_loop P goal draws nl2 (cnt + 1) = Some (ok, nl1, cnt1, rest)"
          by simp
        have "unat (cnt + 1) \<noteq> unat (max_sampling_num_' P)"
          using False by (simp add: word_unat_eq_iff)
        with cnt1 Cons.prems(1) have lt: "unat (cnt + 1) < unat (max_sampling_num_' P)"
          by simp
        from Cons.IH [OF lt rec] obtain used where
          "draws = used @ rest" "unat (cnt + 1) + RRT_counted P used \<le> unat (max_sampling_num_' P)"
          "\<not> ok \<longrightarrow> unat (cnt + 1) + RRT_counted P used = unat (max_sampling_num_' P)"
          by blast
        with cnt1 \<open>\<not> (goal_sampling_rate_' P < u \<and> _)\<close> show ?thesis
          by (intro exI [of _ "d # used"]) (auto simp: d RRT_counted_Cons)
      qed
    qed
  qed
qed

lemma RRT_solve_loop_returns:
  assumes "unat cnt < unat (max_sampling_num_' P)"
    and "unat (max_sampling_num_' P) \<le> unat cnt + RRT_counted P draws"
  shows "\<exists>r. RRT_solve_loop P goal draws nl cnt = Some r"
  using assms
proof (induction draws arbitrary: nl cnt)
  case Nil
  then show ?case by (simp add: RRT_counted_def)
next
  case (Cons d draws)
  obtain u x where d: "d = (u, x)" by (cases d)
  show ?case
  proof (cases "goal_sampling_rate_' P < u \<and> checkConstraintType (constraint_' P) x = NOENTRY")
    case True
    with Cons.prems(2) have "unat (max_sampling_num_' P) \<le> unat cnt + RRT_counted P draws"
      by (simp add: d RRT_counted_Cons)
    from Cons.IH [OF Cons.prems(1) this, of nl] True show ?thesis
      by (simp add: d)
  next
    case False
    define rand_node where "rand_node = RRT_Node (if goal_sampling_rate_' P < u then x else goal) None"
    define idx where "idx = RRT_getNearestNodeIndex rand_node nl"
    define new_node where "new_node = RRT_generateSteerNode P (nl ! idx) rand_node (expand_dist_' P)"
    define accepted where "accepted = RRT_segment P (rrt_state (nl ! idx)) (rrt_state new_node)"
    define nl2 where "nl2 = (if accepted then nl @ [new_node] else nl)"
    have step: "RRT_solve_loop P goal (d # draws) nl cnt =
       (if accepted \<and> distanceFrom (rrt_state new_node) goal \<le> expand_dist_' P
        then Some (True, nl2 @ [RRT_Node goal (Some (last nl2))], cnt, draws)
        else if max_sampling_num_' P = cnt + 1 then Some (False, nl2, cnt + 1, draws)
        else RRT_solve_loop P goal draws nl2 (cnt + 1))"
      unfolding d RRT_solve_loop_step [OF False]
      by (simp only: Let_def rand_node_def idx_def new_node_def accepted_def nl2_def)
    have cnt1: "unat (cnt + 1) = Suc (unat cnt)"
      using Cons.prems(1) by (rule unat_succ)
    show ?thesis
    proof (cases "(accepted \<and> distanceFrom (rrt_state new_node) goal \<le> expand_dist_' P)
                  \<or> max_sampling_num_' P = cnt + 1")
      case True
      then show ?thesis unfolding step by auto
    next
      case nostop: False
      then have "unat (cnt + 1) \<noteq> unat (max_sampling_num_' P)"
        by (simp add: word_unat_eq_iff)
      with cnt1 Cons.prems(1) have lt: "unat (cnt + 1) < unat (max_sampling_num_' P)"
        by simp
      have "unat (max_sampling_num_' P) \<le> unat (cnt + 1) + RRT_counted P draws"
        using Cons.prems(2) False cnt1 by (simp add: d RRT_counted_Cons)
      from Cons.IH [OF lt this, of nl2] nostop show ?thesis
        unfolding step by auto
    qed
  qed
qed

text \<open>
  C8, amended: for \<^verbatim>\<open>max_sampling_num_\<close> of at least 1, the sampling loop of
  \<^verbatim>\<open>RRT::solve\<close> makes at most \<^verbatim>\<open>max_sampling_num_\<close> counted passes, where a pass
  whose sample is discarded as \<^verbatim>\<open>NOENTRY\<close> is redone without being counted; it returns
  false exactly with the last counted pass of the budget, when the goal was not reached;
  and the call returns whenever the draws hold \<^verbatim>\<open>max_sampling_num_\<close> samples that are
  not discarded.
\<close>

theorem C8_RRT_counted_passes:
  assumes "max_sampling_num_' P \<noteq> 0"
  shows "(RRT_solve_loop P goal draws [RRT_Node start None] 0 = Some (ok, nl, cnt, rest) \<longrightarrow>
           (\<exists>used. draws = used @ rest \<and>
              RRT_counted P used \<le> unat (max_sampling_num_' P) \<and>
              (\<not> ok \<longrightarrow> RRT_counted P used = unat (max_sampling_num_' P) \<and>
                        RRT_solve P start goal draws = Some (False, P)))) \<and>
         (unat (max_sampling_num_' P) \<le> RRT_counted P draws \<longrightarrow>
           (\<exists>r. RRT_solve P start goal draws = Some r))"
proof -
  from assms have pos: "unat (0::32 word) < unat (max_sampling_num_' P)"
    by (simp add: unat_gt_0)
  have a: "RRT_solve_loop P goal draws [RRT_Node start None] 0 = Some (ok, nl, cnt, rest) \<longrightarrow>
           (\<exists>used. draws = used @ rest \<and>
              RRT_counted P used \<le> unat (max_sampling_num_' P) \<and>
              (\<not> ok \<longrightarrow> RRT_counted P used = unat (max_sampling_num_' P) \<and>
                        RRT_solve P start goal draws = Some (False, P)))"
  proof
    assume r: "RRT_solve_loop P goal draws [RRT_Node start None] 0 = Some (ok, nl, cnt, rest)"
    from RRT_solve_loop_counted [OF pos r] obtain used where
      "draws = used @ rest" "RRT_counted P used \<le> unat (max_sampling_num_' P)"
      "\<not> ok \<longrightarrow> RRT_counted P used = unat (max_sampling_num_' P)"
      by auto
    moreover have "\<not> ok \<longrightarrow> RRT_solve P start goal draws = Some (False, P)"
      using r by (simp add: RRT_solve_def)
    ultimately show "\<exists>used. draws = used @ rest \<and>
              RRT_counted P used \<le> unat (max_sampling_num_' P) \<and>
              (\<not> ok \<longrightarrow> RRT_counted P used = unat (max_sampling_num_' P) \<and>
                        RRT_solve P start goal draws = Some (False, P))"
      by blast
  qed
  have b: "unat (max_sampling_num_' P) \<le> RRT_counted P draws \<longrightarrow>
           (\<exists>r. RRT_solve P start goal draws = Some r)"
  proof
    assume "unat (max_sampling_num_' P) \<le> RRT_counted P draws"
    then have "unat (max_sampling_num_' P) \<le> unat (0::32 word) + RRT_counted P draws"
      by simp
    from RRT_solve_loop_returns [OF pos this, of goal "[RRT_Node start None]"]
    obtain r where "RRT_solve_loop P goal draws [RRT_Node start None] 0 = Some r"
      by blast
    then show "\<exists>r. RRT_solve P start goal draws = Some r"
      by (cases r) (auto simp: RRT_solve_def)
  qed
  from a b show ?thesis by blast
qed

theorem C8_RRT_counted_passes_witness:
  "max_sampling_num_' rrt_wall \<noteq> 0 \<and>
   (\<exists>used. [(1 / 2, [2, 0]), (1 / 2, [1, 0])] = used @ [] \<and>
      RRT_counted rrt_wall used = unat (max_sampling_num_' rrt_wall)) \<and>
   RRT_solve rrt_wall [0, 0] [9, 0] [(1 / 2, [2, 0]), (1 / 2, [1, 0])] = Some (False, rrt_wall)"
proof -
  have a: "max_sampling_num_' rrt_wall \<noteq> 0"
    by (simp add: rrt_wall_fields)
  have b: "RRT_solve_loop rrt_wall [9, 0] [(1 / 2, [2, 0]), (1 / 2, [1, 0])] [RRT_Node [0, 0] None] 0 =
     Some (False, [RRT_Node [0, 0] None, RRT_Node [1, 0] (Some (RRT_Node [0, 0] None))], 1, [])"
    by (simp add: rrt_wall_fields RRT_getNearestNodeIndex_def
        RRT_generateSteerNode_def steer_state_def RRT_checkCollision_segment rrt_wall_segments
        distanceFrom_axis DBL_MAX_def Let_def)
  from C8_RRT_counted_passes [OF a, of "[9, 0]" "[(1 / 2, [2, 0]), (1 / 2, [1, 0])]" "[0, 0]"
      False "[RRT_Node [0, 0] None, RRT_Node [1, 0] (Some (RRT_Node [0, 0] None))]" 1 "[]"] a b
  show ?thesis by simp
qed

section \<open>The node list of RRT\<close>

lemma nearest_loop_bound:
  "mi < i + length ss \<Longrightarrow> nearest_loop t ss i md mi < i + length ss"
proof (induction ss arbitrary: i md mi)
  case Nil
  then show ?case by simp
next
  case (Cons s ss)
  have a: "nearest_loop t ss (Suc i) (distanceFrom s t) i < Suc i + length ss"
    by (rule Cons.IH) simp
  have b: "nearest_loop t ss (Suc i) md mi < Suc i + length ss"
    by (rule Cons.IH) (use Cons.prems in simp)
  from a b show ?case by (simp add: Let_def)
qed

lemma RRT_getNearestNodeIndex_bound:
  "nl \<noteq> [] \<Longrightarrow> RRT_getNearestNodeIndex t nl < length nl"
  using nearest_loop_bound [of 0 0 "map rrt_state nl" "rrt_state t" DBL_MAX]
  by (simp add: RRT_getNearestNodeIndex_def)

lemma RRT_result_loop_acc: "RRT_result_loop n acc = RRT_result_loop n [] @ acc"
proof (induction n arbitrary: acc)
  case (RRT_Node s po)
  show ?case
  proof (cases po)
    case None
    then show ?thesis by simp
  next
    case (Some p)
    have IH: "\<And>acc. RRT_result_loop p acc = RRT_result_loop p [] @ acc"
      by (rule RRT_Node.IH) (simp add: Some)
    have "RRT_result_loop p (s # acc) = RRT_result_loop p [] @ s # acc"
      by (rule IH)
    moreover have "RRT_result_loop p [s] = RRT_result_loop p [] @ [s]"
      by (rule IH)
    ultimately show ?thesis
      by (simp add: Some)
  qed
qed

lemma RRT_result_loop_Some:
  "RRT_result_loop (RRT_Node s (Some p)) [] = RRT_result_loop p [] @ [s]"
  using RRT_result_loop_acc [of p "[s]"] by simp

lemma RRT_result_loop_nonempty: "RRT_result_loop n [] \<noteq> []"
  by (cases n; cases "rrt_parent n")
    (simp_all del: RRT_result_loop.simps(2) add: RRT_result_loop_Some)

lemma RRT_result_loop_last: "last (RRT_result_loop n []) = rrt_state n"
  by (cases n; cases "rrt_parent n")
    (simp_all del: RRT_result_loop.simps(2) add: RRT_result_loop_Some)

lemma RRT_path_ok_child:
  assumes "RRT_path_ok P start p" and "RRT_segment P (rrt_state p) s"
  shows "RRT_path_ok P start (RRT_Node s (Some p))"
  using assms RRT_result_loop_nonempty [of p]
  by (simp del: RRT_result_loop.simps(2)
      add: RRT_path_ok_def RRT_result_loop_Some successively_append_iff RRT_result_loop_last)

lemma RRT_solve_loop_path_ok:
  assumes "nl \<noteq> []" and "\<forall>n\<in>set nl. RRT_path_ok P start n"
    and "RRT_solve_loop P goal draws nl cnt = Some (True, nl1, cnt1, rest)"
  shows "\<exists>m. RRT_path_ok P start m \<and> nl1 \<noteq> [] \<and> last nl1 = RRT_Node goal (Some m)"
  using assms
proof (induction draws arbitrary: nl cnt)
  case Nil
  then show ?case by simp
next
  case (Cons d draws)
  obtain u x where d: "d = (u, x)" by (cases d)
  show ?case
  proof (cases "goal_sampling_rate_' P < u \<and> checkConstraintType (constraint_' P) x = NOENTRY")
    case True
    with Cons.prems(3) have "RRT_solve_loop P goal draws nl cnt = Some (True, nl1, cnt1, rest)"
      by (simp add: d)
    from Cons.IH [OF Cons.prems(1,2) this] show ?thesis .
  next
    case False
    define rand_node where "rand_node = RRT_Node (if goal_sampling_rate_' P < u then x else goal) None"
    define idx where "idx = RRT_getNearestNodeIndex rand_node nl"
    define new_node where "new_node = RRT_generateSteerNode P (nl ! idx) rand_node (expand_dist_' P)"
    define accepted where "accepted = RRT_segment P (rrt_state (nl ! idx)) (rrt_state new_node)"
    define nl2 where "nl2 = (if accepted then nl @ [new_node] else nl)"
    have step: "RRT_solve_loop P goal (d # draws) nl cnt =
       (if accepted \<and> distanceFrom (rrt_state new_node) goal \<le> expand_dist_' P
        then Some (True, nl2 @ [RRT_Node goal (Some (last nl2))], cnt, draws)
        else if max_sampling_num_' P = cnt + 1 then Some (False, nl2, cnt + 1, draws)
        else RRT_solve_loop P goal draws nl2 (cnt + 1))"
      unfolding d RRT_solve_loop_step [OF False]
      by (simp only: Let_def rand_node_def idx_def new_node_def accepted_def nl2_def)
    have idx: "idx < length nl"
      unfolding idx_def using Cons.prems(1) by (rule RRT_getNearestNodeIndex_bound)
    then have src: "RRT_path_ok P start (nl ! idx)"
      using Cons.prems(2) by simp
    have new: "new_node = RRT_Node (rrt_state new_node) (Some (nl ! idx))"
      by (simp add: new_node_def RRT_generateSteerNode_def)
    have ok_new: "accepted \<Longrightarrow> RRT_path_ok P start new_node"
    proof -
      assume accepted
      then have "RRT_segment P (rrt_state (nl ! idx)) (rrt_state new_node)"
        by (simp add: accepted_def)
      with src have "RRT_path_ok P start (RRT_Node (rrt_state new_node) (Some (nl ! idx)))"
        by (rule RRT_path_ok_child)
      with new show ?thesis by simp
    qed
    have ne2: "nl2 \<noteq> []" and all2: "\<forall>n\<in>set nl2. RRT_path_ok P start n"
      using Cons.prems(1,2) ok_new by (auto simp: nl2_def)
    show ?thesis
    proof (cases "accepted \<and> distanceFrom (rrt_state new_node) goal \<le> expand_dist_' P")
      case True
      with Cons.prems(3) step have nl1: "nl1 = nl2 @ [RRT_Node goal (Some (last nl2))]"
        by simp
      from ne2 all2 have "RRT_path_ok P start (last nl2)" by simp
      with nl1 show ?thesis by simp
    next
      case nosucc: False
      with Cons.prems(3) step
      have rec: "RRT_solve_loop P goal draws nl2 (cnt + 1) = Some (True, nl1, cnt1, rest)"
        by (simp split: if_splits)
      from Cons.IH [OF ne2 all2 rec] show ?thesis .
    qed
  qed
qed

lemma RRT_solve_result:
  assumes "RRT_solve P start goal draws = Some (True, P1)"
  shows "\<exists>ps. result_' P1 = ps @ [goal] \<and> ps \<noteq> [] \<and> hd ps = start \<and>
               successively (RRT_segment P) ps"
proof (cases "RRT_solve_loop P goal draws [RRT_Node start None] 0")
  case None
  with assms show ?thesis by (simp add: RRT_solve_def)
next
  case (Some r)
  obtain ok nl cnt rest where r: "r = (ok, nl, cnt, rest)" by (cases r)
  from assms Some have ok: "ok" and P1: "P1 = P\<lparr>result_' := RRT_result_loop (last nl) []\<rparr>"
    by (simp_all add: RRT_solve_def r split: if_splits)
  from Some ok have loop:
    "RRT_solve_loop P goal draws [RRT_Node start None] 0 = Some (True, nl, cnt, rest)"
    by (simp add: r)
  have ne: "[RRT_Node start None] \<noteq> []" by simp
  have "\<forall>n\<in>set [RRT_Node start None]. RRT_path_ok P start n"
    by (simp add: RRT_path_ok_def)
  from RRT_solve_loop_path_ok [OF ne this loop] obtain m where
    m: "RRT_path_ok P start m" "last nl = RRT_Node goal (Some m)"
    by blast
  have "result_' P1 = RRT_result_loop m [] @ [goal]"
    by (simp del: RRT_result_loop.simps(2) add: P1 m(2) RRT_result_loop_Some)
  with m(1) RRT_result_loop_nonempty [of m] show ?thesis
    by (simp add: RRT_path_ok_def)
qed

section \<open>The node list of Informed RRT*\<close>

lemma tree_invD:
  assumes "tree_inv P start nl"
  shows "nl \<noteq> []" "state (nl ! 0) = start" "parent (nl ! 0) = None" "cost (nl ! 0) = 0"
    "\<And>i. i < length nl \<Longrightarrow> 0 \<le> cost (nl ! i)"
    "\<And>i. i < length nl \<Longrightarrow> 0 < i \<Longrightarrow>
        \<exists>p<length nl. parent (nl ! i) = Some p \<and> cost (nl ! p) \<le> cost (nl ! i) \<and>
           edge_ok P (state (nl ! p)) (state (nl ! i))"
    "\<And>i. i < length nl \<Longrightarrow> (i, 0) \<in> (parent_rel nl)\<^sup>*"
  using assms unfolding tree_inv_def by blast+

lemma parent_rel_step:
  assumes "tree_inv P start nl" and "(a, b) \<in> parent_rel nl"
  shows "b < length nl \<and> cost (nl ! b) \<le> cost (nl ! a)"
proof -
  from assms(2) have a: "a < length nl" and p: "parent (nl ! a) = Some b"
    by (simp_all add: parent_rel_def)
  have "0 < a"
  proof (rule ccontr)
    assume "\<not> 0 < a"
    then have "a = 0" by simp
    with p tree_invD(3) [OF assms(1)] show False by simp
  qed
  from tree_invD(6) [OF assms(1) a this] p show ?thesis by auto
qed

lemma parent_rel_rtrancl:
  assumes "tree_inv P start nl" and "(a, b) \<in> (parent_rel nl)\<^sup>*" and "a < length nl"
  shows "b < length nl \<and> cost (nl ! b) \<le> cost (nl ! a)"
  using assms(2,3)
proof (induction rule: rtrancl_induct)
  case base
  then show ?case by simp
next
  case (step y z)
  from step.IH [OF step.prems] parent_rel_step [OF assms(1) step.hyps(2)]
  show ?case by simp
qed

lemma tree_inv_append:
  assumes inv: "tree_inv P start nl"
    and p: "p < length nl" "parent n = Some p" "cost (nl ! p) \<le> cost n"
      "edge_ok P (state (nl ! p)) (state n)"
  shows "tree_inv P start (nl @ [n])"
proof -
  note D = tree_invD [OF inv]
  have sub: "parent_rel nl \<subseteq> parent_rel (nl @ [n])"
    by (auto simp: parent_rel_def nth_append)
  have reach_old: "\<And>i. i < length nl \<Longrightarrow> (i, 0) \<in> (parent_rel (nl @ [n]))\<^sup>*"
    using D(7) rtrancl_mono [OF sub] by blast
  have "(length nl, p) \<in> parent_rel (nl @ [n])"
    using p(2) by (simp add: parent_rel_def)
  from this reach_old [OF p(1)] have reach_new: "(length nl, 0) \<in> (parent_rel (nl @ [n]))\<^sup>*"
    by (rule converse_rtrancl_into_rtrancl)
  have reach: "\<forall>i<length (nl @ [n]). (i, 0) \<in> (parent_rel (nl @ [n]))\<^sup>*"
  proof (intro allI impI)
    fix i assume "i < length (nl @ [n])"
    then have "i < length nl \<or> i = length nl" by auto
    with reach_old reach_new show "(i, 0) \<in> (parent_rel (nl @ [n]))\<^sup>*" by blast
  qed
  have cost_n: "0 \<le> cost n"
    using D(5) [OF p(1)] p(3) by simp
  have costs: "\<forall>i<length (nl @ [n]). 0 \<le> cost ((nl @ [n]) ! i)"
    using D(5) cost_n by (auto simp: nth_append)
  have edges: "\<forall>i<length (nl @ [n]). 0 < i \<longrightarrow>
        (\<exists>q<length (nl @ [n]). parent ((nl @ [n]) ! i) = Some q \<and>
           cost ((nl @ [n]) ! q) \<le> cost ((nl @ [n]) ! i) \<and>
           edge_ok P (state ((nl @ [n]) ! q)) (state ((nl @ [n]) ! i)))"
  proof (intro allI impI)
    fix i assume i: "i < length (nl @ [n])" "0 < i"
    show "\<exists>q<length (nl @ [n]). parent ((nl @ [n]) ! i) = Some q \<and>
           cost ((nl @ [n]) ! q) \<le> cost ((nl @ [n]) ! i) \<and>
           edge_ok P (state ((nl @ [n]) ! q)) (state ((nl @ [n]) ! i))"
    proof (cases "i < length nl")
      case True
      from D(6) [OF True i(2)] obtain q where "q < length nl" "parent (nl ! i) = Some q"
        "cost (nl ! q) \<le> cost (nl ! i)" "edge_ok P (state (nl ! q)) (state (nl ! i))"
        by blast
      with True show ?thesis
        by (intro exI [of _ q]) (simp add: nth_append)
    next
      case False
      with i(1) have "i = length nl" by simp
      with p show ?thesis
        by (intro exI [of _ p]) (simp add: nth_append)
    qed
  qed
  from D(1-4) costs edges reach show ?thesis
    unfolding tree_inv_def by (simp add: nth_append)
qed

lemma tree_inv_rewire_step:
  assumes inv: "tree_inv P start nl"
    and j: "j < length nl"
    and c: "cost (last nl) \<le> c" "c < cost (nl ! j)"
    and cc: "checkCollision (constraint_' P) (state (last nl)) (state (nl ! j))"
  shows "tree_inv P start (nl[j := (nl ! j)\<lparr>parent := Some (length nl - 1), cost := c\<rparr>])"
proof -
  note D = tree_invD [OF inv]
  define N where "N = length nl - 1"
  define nl1 where "nl1 = nl[j := (nl ! j)\<lparr>parent := Some N, cost := c\<rparr>]"
  have N: "N < length nl" and lastN: "last nl = nl ! N"
    using D(1) by (simp_all add: N_def last_conv_nth)
  have len: "length nl1 = length nl"
    by (simp add: nl1_def)
  have cN: "0 \<le> cost (nl ! N)"
    using D(5) [OF N] .
  have c0: "0 \<le> c"
    using cN c(1) lastN by simp
  have j0: "j \<noteq> 0"
  proof
    assume "j = 0"
    with c(2) D(4) have "c < 0" by simp
    with c0 show False by simp
  qed
  have jN: "j \<noteq> N"
    using c lastN by auto
  have nth_j: "nl1 ! j = (nl ! j)\<lparr>parent := Some N, cost := c\<rparr>"
    using j by (simp add: nl1_def)
  have nth_other: "\<And>i. i \<noteq> j \<Longrightarrow> nl1 ! i = nl ! i"
    by (simp add: nl1_def)
  have st: "\<And>i. i < length nl \<Longrightarrow> state (nl1 ! i) = state (nl ! i)"
    using nth_j nth_other by (case_tac "i = j") simp_all
  have cost_le: "\<And>i. i < length nl \<Longrightarrow> cost (nl1 ! i) \<le> cost (nl ! i)"
    using nth_j nth_other c(2) by (case_tac "i = j") simp_all
  have costs: "\<forall>i<length nl1. 0 \<le> cost (nl1 ! i)"
  proof (intro allI impI)
    fix i assume "i < length nl1"
    then have i: "i < length nl" by (simp add: len)
    show "0 \<le> cost (nl1 ! i)"
      using D(5) [OF i] nth_j nth_other [of i] c0 by (cases "i = j") simp_all
  qed
  have edges: "\<forall>i<length nl1. 0 < i \<longrightarrow>
        (\<exists>p<length nl1. parent (nl1 ! i) = Some p \<and> cost (nl1 ! p) \<le> cost (nl1 ! i) \<and>
           edge_ok P (state (nl1 ! p)) (state (nl1 ! i)))"
  proof (intro allI impI)
    fix i assume "i < length nl1" and i0: "0 < i"
    then have i: "i < length nl" by (simp add: len)
    show "\<exists>p<length nl1. parent (nl1 ! i) = Some p \<and> cost (nl1 ! p) \<le> cost (nl1 ! i) \<and>
           edge_ok P (state (nl1 ! p)) (state (nl1 ! i))"
    proof (cases "i = j")
      case True
      have "cost (nl1 ! N) \<le> c"
        using nth_other [of N] jN c(1) lastN by simp
      moreover have "edge_ok P (state (nl1 ! N)) (state (nl1 ! j))"
        using cc lastN st [OF N] st [OF j] by (simp add: edge_ok_def)
      ultimately show ?thesis
        using True N nth_j by (intro exI [of _ N]) (simp add: len)
    next
      case False
      from D(6) [OF i i0] obtain p where p: "p < length nl" "parent (nl ! i) = Some p"
        "cost (nl ! p) \<le> cost (nl ! i)" "edge_ok P (state (nl ! p)) (state (nl ! i))"
        by blast
      have "cost (nl1 ! p) \<le> cost (nl1 ! i)"
        using cost_le [OF p(1)] p(3) nth_other [OF False] by simp
      with p False show ?thesis
        by (intro exI [of _ p]) (simp add: len nth_other st [OF p(1)] st [OF i])
    qed
  qed
  have not_desc: "(N, j) \<notin> (parent_rel nl)\<^sup>*"
  proof
    assume "(N, j) \<in> (parent_rel nl)\<^sup>*"
    from parent_rel_rtrancl [OF inv this N] have "cost (nl ! j) \<le> cost (nl ! N)" by simp
    with c lastN show False by simp
  qed
  have keep: "\<And>a b. a \<noteq> j \<Longrightarrow> (a, b) \<in> parent_rel nl \<Longrightarrow> (a, b) \<in> parent_rel nl1"
    by (simp add: parent_rel_def len nth_other)
  have avoid: "(a, b) \<in> (parent_rel nl1)\<^sup>*"
    if "(a, b) \<in> (parent_rel nl)\<^sup>*" and "(a, j) \<notin> (parent_rel nl)\<^sup>*" for a b
    using that
  proof (induction rule: converse_rtrancl_induct)
    case base
    then show ?case by simp
  next
    case (step y z)
    from step.prems have "y \<noteq> j" by auto
    from keep [OF this step.hyps(1)] have yz: "(y, z) \<in> parent_rel nl1" .
    have "(z, j) \<notin> (parent_rel nl)\<^sup>*"
      using step.prems step.hyps(1) by (meson converse_rtrancl_into_rtrancl)
    from yz step.IH [OF this] show ?case
      by (rule converse_rtrancl_into_rtrancl)
  qed
  have jN_edge: "(j, N) \<in> parent_rel nl1"
    using j nth_j by (simp add: parent_rel_def len)
  have N0: "(N, 0) \<in> (parent_rel nl1)\<^sup>*"
    using avoid [OF D(7) [OF N] not_desc] .
  have reach: "\<forall>i<length nl1. (i, 0) \<in> (parent_rel nl1)\<^sup>*"
  proof (intro allI impI)
    fix i assume "i < length nl1"
    then have "(i, 0) \<in> (parent_rel nl)\<^sup>*"
      using D(7) by (simp add: len)
    then show "(i, 0) \<in> (parent_rel nl1)\<^sup>*"
    proof (induction rule: converse_rtrancl_induct)
      case base
      then show ?case by simp
    next
      case (step y z)
      show ?case
      proof (cases "y = j")
        case True
        with jN_edge N0 show ?thesis
          by (simp add: converse_rtrancl_into_rtrancl)
      next
        case False
        from keep [OF False step.hyps(1)] step.IH show ?thesis
          by (rule converse_rtrancl_into_rtrancl)
      qed
    qed
  qed
  have "nl1 \<noteq> []" "state (nl1 ! 0) = start" "parent (nl1 ! 0) = None" "cost (nl1 ! 0) = 0"
    using D(1-4) j0 nth_other [of 0] len by auto
  with costs edges reach have "tree_inv P start nl1"
    unfolding tree_inv_def by blast
  then show ?thesis
    by (simp add: nl1_def N_def)
qed

lemma tree_inv_rewireNearNodes:
  assumes "tree_inv P start nl" and "\<forall>i\<in>set near. i < length nl"
  shows "tree_inv P start (rewireNearNodes P nl near)"
  using assms
proof (induction near arbitrary: nl)
  case Nil
  then show ?case by simp
next
  case (Cons j rest)
  let ?c = "cost (last nl) + distanceFrom (state (nl ! j)) (state (last nl))"
  let ?nl = "nl[j := (nl ! j)\<lparr>parent := Some (length nl - 1), cost := ?c\<rparr>]"
  from Cons.prems(2) have j: "j < length nl" and rest: "\<forall>i\<in>set rest. i < length nl"
    by simp_all
  show ?case
  proof (cases "?c < cost (nl ! j) \<and> checkCollision (constraint_' P) (state (last nl)) (state (nl ! j))")
    case True
    have "cost (last nl) \<le> ?c"
      using distanceFrom_nonneg [of "state (nl ! j)" "state (last nl)"] by simp
    with Cons.prems(1) j True have "tree_inv P start ?nl"
      by (intro tree_inv_rewire_step) simp_all
    moreover have "\<forall>i\<in>set rest. i < length ?nl"
      using rest by simp
    ultimately have "tree_inv P start (rewireNearNodes P ?nl rest)"
      by (rule Cons.IH)
    with True show ?thesis by (simp add: Let_def)
  next
    case False
    from Cons.IH [OF Cons.prems(1) rest] False show ?thesis
      by (auto simp: Let_def)
  qed
qed

lemma getNearestNodeIndex_bound:
  "nl \<noteq> [] \<Longrightarrow> getNearestNodeIndex t nl < length nl"
  using nearest_loop_bound [of 0 0 "map state nl" "state t" DBL_MAX]
  by (simp add: getNearestNodeIndex_def)

lemma findNearNodes_bound: "\<forall>i\<in>set (findNearNodes P t nl). i < length nl"
  by (simp add: findNearNodes_def Let_def)

lemma chooseParentNode_cases:
  "chooseParentNode P t nl near = t \<or>
   (\<exists>b\<in>set near. checkCollision (constraint_' P) (state t) (state (nl ! b)) \<and>
      chooseParentNode P t nl near =
        t\<lparr>parent := Some b, cost := cost (nl ! b) + distanceFrom (state t) (state (nl ! b))\<rparr>)"
proof -
  define F where "F = filter (\<lambda>i. checkCollision (constraint_' P) (state t) (state (nl ! i))) near"
  define via where "via = (\<lambda>i. cost (nl ! i) + distanceFrom (state t) (state (nl ! i)))"
  have eq: "chooseParentNode P t nl near =
      (if \<exists>i\<in>set F. via i < DBL_MAX
       then t\<lparr>parent := Some (arg_min_list via F), cost := via (arg_min_list via F)\<rparr> else t)"
    by (simp add: chooseParentNode_eq Let_def F_def [symmetric] via_def [symmetric])
  show ?thesis
  proof (cases "\<exists>i\<in>set F. via i < DBL_MAX")
    case True
    then have "F \<noteq> []" by auto
    then have "arg_min_list via F \<in> set F" by (rule arg_min_list_in)
    then have "arg_min_list via F \<in> set near"
      "checkCollision (constraint_' P) (state t) (state (nl ! arg_min_list via F))"
      by (simp_all add: F_def)
    with True eq show ?thesis
      by (intro disjI2 bexI [of _ "arg_min_list via F"]) (simp_all add: via_def)
  next
    case False
    with eq show ?thesis by simp
  qed
qed

lemma solve_iteration_cases:
  assumes "solve_iteration P goal (u, x) (nl, gi) = Inr (nl1, gi1)"
  shows "nl1 = nl \<or>
    (\<exists>t. checkCollision (constraint_' P) (state (nl ! getNearestNodeIndex t nl))
            (state (generateSteerNode P nl (getNearestNodeIndex t nl) t (expand_dist_' P))) \<and>
          nl1 = rewireNearNodes P
                  (nl @ [chooseParentNode P
                           (generateSteerNode P nl (getNearestNodeIndex t nl) t (expand_dist_' P)) nl
                           (findNearNodes P
                              (generateSteerNode P nl (getNearestNodeIndex t nl) t (expand_dist_' P)) nl)])
                  (findNearNodes P
                     (generateSteerNode P nl (getNearestNodeIndex t nl) t (expand_dist_' P)) nl))"
  using assms unfolding solve_iteration_def
  by (auto simp: Let_def split: if_splits)

lemma solve_iteration_inv:
  assumes e: "0 \<le> expand_dist_' P" and inv: "tree_inv P start nl"
    and it: "solve_iteration P goal d (nl, gi) = Inr (nl1, gi1)"
  shows "tree_inv P start nl1"
proof -
  obtain u x where d: "d = (u, x)" by (cases d)
  from solve_iteration_cases [OF it [unfolded d] ] show ?thesis
  proof
    assume "nl1 = nl"
    with inv show ?thesis by simp
  next
    assume "\<exists>t. checkCollision (constraint_' P) (state (nl ! getNearestNodeIndex t nl))
            (state (generateSteerNode P nl (getNearestNodeIndex t nl) t (expand_dist_' P))) \<and>
          nl1 = rewireNearNodes P
                  (nl @ [chooseParentNode P
                           (generateSteerNode P nl (getNearestNodeIndex t nl) t (expand_dist_' P)) nl
                           (findNearNodes P
                              (generateSteerNode P nl (getNearestNodeIndex t nl) t (expand_dist_' P)) nl)])
                  (findNearNodes P
                     (generateSteerNode P nl (getNearestNodeIndex t nl) t (expand_dist_' P)) nl)"
    then obtain t where
      cc: "checkCollision (constraint_' P) (state (nl ! getNearestNodeIndex t nl))
            (state (generateSteerNode P nl (getNearestNodeIndex t nl) t (expand_dist_' P)))"
      and nl1: "nl1 = rewireNearNodes P
                  (nl @ [chooseParentNode P
                           (generateSteerNode P nl (getNearestNodeIndex t nl) t (expand_dist_' P)) nl
                           (findNearNodes P
                              (generateSteerNode P nl (getNearestNodeIndex t nl) t (expand_dist_' P)) nl)])
                  (findNearNodes P
                     (generateSteerNode P nl (getNearestNodeIndex t nl) t (expand_dist_' P)) nl)"
      by blast
    define idx where "idx = getNearestNodeIndex t nl"
    define new_node where "new_node = generateSteerNode P nl idx t (expand_dist_' P)"
    define near where "near = findNearNodes P new_node nl"
    define new1 where "new1 = chooseParentNode P new_node nl near"
    note D = tree_invD [OF inv]
    have idx: "idx < length nl"
      unfolding idx_def using D(1) by (rule getNearestNodeIndex_bound)
    have near: "\<forall>i\<in>set near. i < length nl"
      unfolding near_def by (rule findNearNodes_bound)
    have new_parent: "parent new_node = Some idx"
      by (simp add: new_node_def generateSteerNode_def Let_def)
    have new_cost: "cost (nl ! idx) \<le> cost new_node"
      using e distanceFrom_nonneg [of "state (nl ! idx)" "state t"]
      by (simp add: new_node_def generateSteerNode_def Let_def)
    have new_cc: "checkCollision (constraint_' P) (state (nl ! idx)) (state new_node)"
      using cc by (simp add: idx_def new_node_def)
    have "\<exists>p<length nl. parent new1 = Some p \<and> cost (nl ! p) \<le> cost new1 \<and>
             edge_ok P (state (nl ! p)) (state new1)"
      using chooseParentNode_cases [of P new_node nl near]
    proof
      assume "chooseParentNode P new_node nl near = new_node"
      with idx new_parent new_cost new_cc show ?thesis
        by (intro exI [of _ idx]) (simp add: new1_def edge_ok_def)
    next
      assume "\<exists>b\<in>set near. checkCollision (constraint_' P) (state new_node) (state (nl ! b)) \<and>
        chooseParentNode P new_node nl near =
          new_node\<lparr>parent := Some b,
            cost := cost (nl ! b) + distanceFrom (state new_node) (state (nl ! b))\<rparr>"
      then obtain b where b: "b \<in> set near"
        "checkCollision (constraint_' P) (state new_node) (state (nl ! b))"
        "new1 = new_node\<lparr>parent := Some b,
            cost := cost (nl ! b) + distanceFrom (state new_node) (state (nl ! b))\<rparr>"
        unfolding new1_def by blast
      from b(1) near have "b < length nl" by simp
      with b(2,3) distanceFrom_nonneg [of "state new_node" "state (nl ! b)"] show ?thesis
        by (intro exI [of _ b]) (simp add: edge_ok_def)
    qed
    then obtain p where "p < length nl" "parent new1 = Some p" "cost (nl ! p) \<le> cost new1"
      "edge_ok P (state (nl ! p)) (state new1)"
      by blast
    with inv have "tree_inv P start (nl @ [new1])"
      by (rule tree_inv_append)
    moreover have "\<forall>i\<in>set near. i < length (nl @ [new1])"
      using near by auto
    ultimately have "tree_inv P start (rewireNearNodes P (nl @ [new1]) near)"
      by (rule tree_inv_rewireNearNodes)
    then show ?thesis
      by (simp add: nl1 new1_def near_def new_node_def idx_def)
  qed
qed

lemma solve_loop_inv:
  assumes "0 \<le> expand_dist_' P" and "tree_inv P start (fst s)"
    and "solve_loop P goal rnd i n s = Inr s1"
  shows "tree_inv P start (fst s1)"
  using assms(2,3)
proof (induction n arbitrary: i s)
  case 0
  then show ?case by simp
next
  case (Suc n)
  show ?case
  proof (cases "solve_iteration P goal (rnd i) s")
    case (Inl e)
    with Suc.prems(2) show ?thesis by simp
  next
    case (Inr s2)
    with Suc.prems(2) have rec: "solve_loop P goal rnd (Suc i) n s2 = Inr s1"
      by simp
    from Inr have "solve_iteration P goal (rnd i) (fst s, snd s) = Inr (fst s2, snd s2)"
      by simp
    from solve_iteration_inv [OF assms(1) Suc.prems(1) this]
    have "tree_inv P start (fst s2)" .
    from Suc.IH [OF this rec] show ?thesis .
  qed
qed

lemma tree_inv_root: "tree_inv P start [\<lparr>state = start, parent = None, cost = 0\<rparr>]"
  by (simp add: tree_inv_def)

lemma parent_walk_relpow:
  assumes "\<And>a b. (a, b) \<in> parent_rel nl \<Longrightarrow> b < length nl"
    and "(i, r) \<in> parent_rel nl ^^ k" and "parent (nl ! r) = None" and "i < length nl" and "k \<le> fuel"
  shows "parent_walk nl fuel i = Some r"
  using assms(2,4,5)
proof (induction k arbitrary: i fuel)
  case 0
  then have "i = r" by simp
  with assms(3) 0 show ?case by (cases fuel) simp_all
next
  case (Suc k)
  from Suc.prems(1) obtain p where p: "(i, p) \<in> parent_rel nl" "(p, r) \<in> parent_rel nl ^^ k"
    by (meson relpow_Suc_D2)
  from Suc.prems(3) obtain fuel1 where fuel: "fuel = Suc fuel1" "k \<le> fuel1"
    by (cases fuel) simp_all
  from p(1) have par: "parent (nl ! i) = Some p"
    by (simp add: parent_rel_def)
  from assms(1) [OF p(1)] have "p < length nl" .
  from Suc.IH [OF p(2) this fuel(2)] par Suc.prems(2) show ?case
    by (simp add: fuel(1))
qed

lemma parent_rel_card:
  "finite (parent_rel nl) \<and> card (parent_rel nl) \<le> length nl"
proof -
  have sub: "parent_rel nl \<subseteq> (\<lambda>i. (i, the (parent (nl ! i)))) ` {0..<length nl}"
    by (auto simp: parent_rel_def image_iff)
  have fin: "finite ((\<lambda>i. (i, the (parent (nl ! i)))) ` {0..<length nl})"
    by simp
  have "card (parent_rel nl) \<le> card ((\<lambda>i. (i, the (parent (nl ! i)))) ` {0..<length nl})"
    using sub fin by (rule card_mono [rotated])
  also have "\<dots> \<le> card {0..<length nl}"
    by (rule card_image_le) simp
  finally show ?thesis
    using finite_subset [OF sub fin] by simp
qed

lemma tree_inv_well_formed:
  assumes inv: "tree_inv P start nl"
  shows "well_formed_tree nl"
proof -
  note D = tree_invD [OF inv]
  obtain x xs where nl: "nl = x # xs"
    using D(1) by (cases nl) auto
  have "filter (\<lambda>n. parent n = None) xs = []"
  proof -
    have "\<forall>n\<in>set xs. parent n \<noteq> None"
    proof
      fix n assume "n \<in> set xs"
      then obtain k where k: "k < length xs" "xs ! k = n"
        by (auto simp: in_set_conv_nth)
      from D(6) [of "Suc k"] k(1) have "\<exists>p. parent (nl ! Suc k) = Some p"
        by (auto simp: nl)
      with k(2) show "parent n \<noteq> None" by (auto simp: nl)
    qed
    then show ?thesis by (simp add: filter_empty_conv)
  qed
  with D(3) have one: "length (filter (\<lambda>n. parent n = None) nl) = 1"
    by (simp add: nl)
  have bnd: "\<And>a b. (a, b) \<in> parent_rel nl \<Longrightarrow> b < length nl"
    using parent_rel_step [OF inv] by blast
  have walk: "\<forall>i<length nl. parent_walk nl (length nl) i = Some 0"
  proof (intro allI impI)
    fix i assume i: "i < length nl"
    from D(7) [OF i] parent_rel_card [of nl]
    obtain k where k: "k \<le> card (parent_rel nl)" "(i, 0) \<in> parent_rel nl ^^ k"
      by (auto simp: rtrancl_finite_eq_relpow)
    with parent_rel_card [of nl] have "k \<le> length nl" by simp
    from parent_walk_relpow [OF bnd k(2) D(3) i this]
    show "parent_walk nl (length nl) i = Some 0" .
  qed
  from one walk show ?thesis
    by (simp add: well_formed_tree_def)
qed

lemma result_loop_relpow:
  assumes "\<And>a b. (a, b) \<in> parent_rel nl \<Longrightarrow> E (state (nl ! b)) (state (nl ! a))"
    and "(i, r) \<in> parent_rel nl ^^ k" and "parent (nl ! r) = None"
  shows "\<exists>ps. result_loop nl i acc = Some (ps @ acc) \<and> ps \<noteq> [] \<and>
               hd ps = state (nl ! r) \<and> last ps = state (nl ! i) \<and> successively E ps"
  using assms(2)
proof (induction k arbitrary: i acc)
  case 0
  then have "i = r" by simp
  with assms(3) have "result_loop nl i acc = Some ([state (nl ! r)] @ acc)"
    by (subst result_loop.simps) (simp add: Let_def)
  with \<open>i = r\<close> show ?case
    by (intro exI [of _ "[state (nl ! r)]"]) simp
next
  case (Suc k)
  from Suc.prems obtain p where p: "(i, p) \<in> parent_rel nl" "(p, r) \<in> parent_rel nl ^^ k"
    by (meson relpow_Suc_D2)
  from p(1) have par: "parent (nl ! i) = Some p"
    by (simp add: parent_rel_def)
  from Suc.IH [OF p(2), of "state (nl ! i) # acc"] obtain ps where ps:
    "result_loop nl p (state (nl ! i) # acc) = Some (ps @ state (nl ! i) # acc)" "ps \<noteq> []"
    "hd ps = state (nl ! r)" "last ps = state (nl ! p)" "successively E ps"
    by blast
  have "result_loop nl i acc = result_loop nl p (state (nl ! i) # acc)"
    using par by (subst result_loop.simps) (simp add: Let_def)
  with ps(1) have "result_loop nl i acc = Some ((ps @ [state (nl ! i)]) @ acc)"
    by simp
  moreover have "successively E (ps @ [state (nl ! i)])"
    using ps(2,4,5) assms(1) [OF p(1)] by (simp add: successively_append_iff)
  ultimately show ?case
    using ps(2,3) by (intro exI [of _ "ps @ [state (nl ! i)]"]) simp
qed

lemma tree_inv_result_loop:
  assumes inv: "tree_inv P start nl" and i: "i < length nl"
  shows "\<exists>ps. result_loop nl i acc = Some (ps @ acc) \<and> ps \<noteq> [] \<and>
               hd ps = start \<and> last ps = state (nl ! i) \<and> successively (edge_ok P) ps"
proof -
  note D = tree_invD [OF inv]
  have edges: "\<And>a b. (a, b) \<in> parent_rel nl \<Longrightarrow> edge_ok P (state (nl ! b)) (state (nl ! a))"
  proof -
    fix a b assume ab: "(a, b) \<in> parent_rel nl"
    then have a: "a < length nl" "parent (nl ! a) = Some b"
      by (simp_all add: parent_rel_def)
    with D(3) have "0 < a" by (cases a) auto
    from D(6) [OF a(1) this] a(2) show "edge_ok P (state (nl ! b)) (state (nl ! a))"
      by auto
  qed
  from D(7) [OF i] obtain k where "(i, 0) \<in> parent_rel nl ^^ k"
    by (auto simp: rtrancl_power)
  from result_loop_relpow [where E = "edge_ok P" and nl = nl, OF edges this D(3), of acc] D(2)
  show ?thesis by simp
qed

lemma getBestNodeIndex_loop_found:
  assumes "getBestNodeIndex_loop t radius ns i best mc \<noteq> best"
  shows "int i \<le> getBestNodeIndex_loop t radius ns i best mc \<and>
         getBestNodeIndex_loop t radius ns i best mc < int (i + length ns) \<and>
         distanceFrom t (state (ns ! (nat (getBestNodeIndex_loop t radius ns i best mc) - i))) < radius"
  using assms
proof (induction ns arbitrary: i best mc)
  case Nil
  then show ?case by simp
next
  case (Cons n ns)
  have later: "int i \<le> r \<and> r < int (i + length (n # ns)) \<and>
      distanceFrom t (state ((n # ns) ! (nat r - i))) < radius"
    if "int (Suc i) \<le> r \<and> r < int (Suc i + length ns) \<and>
      distanceFrom t (state (ns ! (nat r - Suc i))) < radius" for r
  proof -
    from that have "nat r - i = Suc (nat r - Suc i)" by linarith
    with that show ?thesis by simp
  qed
  show ?case
  proof (cases "distanceFrom t (state n) < radius \<and> cost n < mc")
    case True
    then have step: "getBestNodeIndex_loop t radius (n # ns) i best mc =
        getBestNodeIndex_loop t radius ns (Suc i) (int i) (cost n)"
      by (simp add: Let_def)
    show ?thesis
    proof (cases "getBestNodeIndex_loop t radius ns (Suc i) (int i) (cost n) = int i")
      case eq: True
      with True show ?thesis unfolding step by simp
    next
      case False
      from later [OF Cons.IH [OF False] ] show ?thesis
        unfolding step .
    qed
  next
    case False
    then have step: "getBestNodeIndex_loop t radius (n # ns) i best mc =
        getBestNodeIndex_loop t radius ns (Suc i) best mc"
      by (auto simp: Let_def)
    from Cons.prems have "getBestNodeIndex_loop t radius ns (Suc i) best mc \<noteq> best"
      unfolding step .
    from later [OF Cons.IH [OF this] ] show ?thesis
      unfolding step .
  qed
qed

lemma getBestNodeIndex_found:
  assumes "\<not> getBestNodeIndex t radius nl < 0"
  shows "nat (getBestNodeIndex t radius nl) < length nl \<and>
         distanceFrom t (state (nl ! nat (getBestNodeIndex t radius nl))) < radius"
proof -
  from assms have "getBestNodeIndex_loop t radius nl 0 (- 1) DBL_MAX \<noteq> - 1"
    by (auto simp: getBestNodeIndex_def)
  from getBestNodeIndex_loop_found [OF this] show ?thesis
    by (auto simp: getBestNodeIndex_def)
qed

lemma solve_success:
  assumes "solve P start goal rnd = Some (Inr (True, P1))"
  shows "\<exists>nl gi b.
      solve_loop P goal rnd 0 (unat (max_sampling_num_' P))
        ([\<lparr>state = start, parent = None, cost = 0\<rparr>], []) = Inr (nl, gi) \<and>
      b < length nl \<and> distanceFrom goal (state (nl ! b)) < expand_dist_' P \<and>
      node_list_' P1 = nl \<and>
      result_loop nl b (if state (nl ! b) \<noteq> goal then [goal] else []) = Some (result_' P1)"
proof -
  let ?loop = "solve_loop P goal rnd 0 (unat (max_sampling_num_' P))
        ([\<lparr>state = start, parent = None, cost = 0\<rparr>], [])"
  have dims: "\<not> (length start \<noteq> length goal \<or> length start < 2)"
  proof
    assume "length start \<noteq> length goal \<or> length start < 2"
    then have "solve P start goal rnd = Some (Inl InvalidArgument)"
      by (simp add: solve_def)
    with assms show False by simp
  qed
  show ?thesis
  proof (cases ?loop)
    case (Inl e)
    with assms dims show ?thesis by (simp add: solve_def)
  next
    case (Inr s)
    obtain nl gi where s: "s = (nl, gi)" by (cases s)
    let ?b = "getBestNodeIndex goal (expand_dist_' P) nl"
    have nb: "\<not> ?b < 0"
    proof
      assume "?b < 0"
      with assms dims Inr show False by (simp add: solve_def s Let_def)
    qed
    from getBestNodeIndex_found [OF nb]
    have b: "nat ?b < length nl" "distanceFrom goal (state (nl ! nat ?b)) < expand_dist_' P"
      by simp_all
    let ?r0 = "if state (nl ! nat ?b) \<noteq> goal then [goal] else []"
    show ?thesis
    proof (cases "result_loop nl (nat ?b) ?r0")
      case None
      with assms dims Inr nb show ?thesis by (simp add: solve_def s Let_def)
    next
      case (Some path)
      with assms dims Inr nb have "result_' P1 = path" "node_list_' P1 = nl"
        by (auto simp: solve_def s Let_def)
      with Some b Inr show ?thesis
        by (intro exI [of _ nl] exI [of _ gi] exI [of _ "nat ?b"]) (simp add: s)
    qed
  qed
qed

lemma solve_success_path:
  assumes "solve P start goal rnd = Some (Inr (True, P1))"
  shows "tree_inv P start (node_list_' P1) \<and>
    (\<exists>ps. ps \<noteq> [] \<and> hd ps = start \<and>
       result_' P1 = ps @ (if last ps \<noteq> goal then [goal] else []) \<and>
       successively (edge_ok P) ps)"
proof -
  from solve_success [OF assms] obtain nl gi b where
    loop: "solve_loop P goal rnd 0 (unat (max_sampling_num_' P))
        ([\<lparr>state = start, parent = None, cost = 0\<rparr>], []) = Inr (nl, gi)"
    and b: "b < length nl" "distanceFrom goal (state (nl ! b)) < expand_dist_' P"
    and nl: "node_list_' P1 = nl"
    and res: "result_loop nl b (if state (nl ! b) \<noteq> goal then [goal] else []) = Some (result_' P1)"
    by blast
  from b(2) distanceFrom_nonneg [of goal "state (nl ! b)"] have e: "0 \<le> expand_dist_' P"
    by simp
  have "tree_inv P start (fst ([\<lparr>state = start, parent = None, cost = 0\<rparr>], []::nat list))"
    by (simp add: tree_inv_root)
  from solve_loop_inv [OF e this loop] have inv: "tree_inv P start nl"
    by simp
  from tree_inv_result_loop [OF inv b(1), of "if state (nl ! b) \<noteq> goal then [goal] else []"]
  obtain ps where ps:
    "result_loop nl b (if state (nl ! b) \<noteq> goal then [goal] else []) =
       Some (ps @ (if state (nl ! b) \<noteq> goal then [goal] else []))"
    "ps \<noteq> []" "hd ps = start" "last ps = state (nl ! b)" "successively (edge_ok P) ps"
    by blast
  from ps(1) res have "result_' P1 = ps @ (if last ps \<noteq> goal then [goal] else [])"
    by (simp add: ps(4))
  with ps(2,3,5) inv nl show ?thesis by blast
qed

lemma solve_returns:
  assumes "0 \<le> expand_dist_' P"
  shows "\<exists>r. solve P start goal rnd = Some r"
proof (cases "length start \<noteq> length goal \<or> length start < 2")
  case True
  then show ?thesis by (auto simp: solve_def)
next
  case dims: False
  let ?loop = "solve_loop P goal rnd 0 (unat (max_sampling_num_' P))
        ([\<lparr>state = start, parent = None, cost = 0\<rparr>], [])"
  show ?thesis
  proof (cases ?loop)
    case (Inl e)
    with dims show ?thesis by (simp add: solve_def)
  next
    case (Inr s)
    obtain nl gi where s: "s = (nl, gi)" by (cases s)
    have "tree_inv P start (fst ([\<lparr>state = start, parent = None, cost = 0\<rparr>], []::nat list))"
      by (simp add: tree_inv_root)
    from solve_loop_inv [OF assms this Inr] have inv: "tree_inv P start nl"
      by (simp add: s)
    let ?b = "getBestNodeIndex goal (expand_dist_' P) nl"
    show ?thesis
    proof (cases "?b < 0")
      case True
      with dims Inr show ?thesis by (simp add: solve_def s Let_def)
    next
      case False
      from getBestNodeIndex_found [OF False] have "nat ?b < length nl" by simp
      from tree_inv_result_loop [OF inv this,
          of "if state (nl ! nat ?b) \<noteq> goal then [goal] else []"]
      obtain path where "result_loop nl (nat ?b)
          (if state (nl ! nat ?b) \<noteq> goal then [goal] else []) = Some path"
        by blast
      with dims Inr False show ?thesis by (simp add: solve_def s Let_def)
    qed
  qed
qed

text \<open>
  C4: for every successful solve of RRT and of Informed RRT*, the result path is not
  empty, its first state is the start argument and its last state is the goal argument.
\<close>

theorem C4_path_endpoints:
  "(RRT_solve P start goal draws = Some (True, P1) \<longrightarrow>
      result_' P1 \<noteq> [] \<and> hd (result_' P1) = start \<and> last (result_' P1) = goal) \<and>
   (solve Q start goal rnd = Some (Inr (True, Q1)) \<longrightarrow>
      result_' Q1 \<noteq> [] \<and> hd (result_' Q1) = start \<and> last (result_' Q1) = goal)"
proof (intro conjI impI)
  assume "RRT_solve P start goal draws = Some (True, P1)"
  from RRT_solve_result [OF this] obtain ps where
    "result_' P1 = ps @ [goal]" "ps \<noteq> []" "hd ps = start"
    by blast
  then show "result_' P1 \<noteq> []" "hd (result_' P1) = start" "last (result_' P1) = goal"
    by simp_all
next
  assume "solve Q start goal rnd = Some (Inr (True, Q1))"
  from solve_success_path [OF this] obtain ps where
    "ps \<noteq> []" "hd ps = start" "result_' Q1 = ps @ (if last ps \<noteq> goal then [goal] else [])"
    by blast
  then show "result_' Q1 \<noteq> []" "hd (result_' Q1) = start" "last (result_' Q1) = goal"
    by simp_all
qed

text \<open>
  C1, amended: for every successful solve, every pair of consecutive states of the
  result path before the appended goal state is a segment that passed the collision
  test: in RRT, \<^verbatim>\<open>RRT::checkCollision\<close> from the parent to the child; in Informed RRT*,
  the constraint's \<^verbatim>\<open>checkCollision\<close> in one of the two orders (steering and rewiring
  test from the parent to the child, \<^verbatim>\<open>chooseParentNode\<close> from the child to the
  parent). The last segment, to the appended goal state, is not tested.
\<close>

theorem C1_path_segments:
  "(RRT_solve P start goal draws = Some (True, P1) \<longrightarrow>
      (\<exists>ps. ps \<noteq> [] \<and> result_' P1 = ps @ [goal] \<and> successively (RRT_segment P) ps)) \<and>
   (solve Q start goal rnd = Some (Inr (True, Q1)) \<longrightarrow>
      (\<exists>ps. ps \<noteq> [] \<and> result_' Q1 = ps @ (if last ps \<noteq> goal then [goal] else []) \<and>
         successively (\<lambda>a b. checkCollision (constraint_' Q) a b \<or>
                               checkCollision (constraint_' Q) b a) ps))"
proof (intro conjI impI)
  assume "RRT_solve P start goal draws = Some (True, P1)"
  from RRT_solve_result [OF this]
  show "\<exists>ps. ps \<noteq> [] \<and> result_' P1 = ps @ [goal] \<and> successively (RRT_segment P) ps"
    by blast
next
  assume "solve Q start goal rnd = Some (Inr (True, Q1))"
  from solve_success_path [OF this] obtain ps where
    "ps \<noteq> []" "result_' Q1 = ps @ (if last ps \<noteq> goal then [goal] else [])"
    "successively (edge_ok Q) ps"
    by blast
  moreover have "edge_ok Q = (\<lambda>a b. checkCollision (constraint_' Q) a b \<or>
                               checkCollision (constraint_' Q) b a)"
    by (intro ext) (simp add: edge_ok_def)
  ultimately show "\<exists>ps. ps \<noteq> [] \<and> result_' Q1 = ps @ (if last ps \<noteq> goal then [goal] else []) \<and>
         successively (\<lambda>a b. checkCollision (constraint_' Q) a b \<or>
                               checkCollision (constraint_' Q) b a) ps"
    by auto
qed

text \<open>
  C9: the node list of Informed RRT* at the end of the sampling loop, for an expansion
  distance that is not negative, and the node list stored by every successful solve,
  have exactly one node without parent, and following the parent pointers from any node
  reaches that root, at position 0, in at most as many steps as there are nodes.
\<close>

theorem C9_tree_well_formed:
  "(0 \<le> expand_dist_' P \<and>
    solve_loop P goal rnd 0 (unat (max_sampling_num_' P))
      ([\<lparr>state = start, parent = None, cost = 0\<rparr>], []) = Inr (nl, gi) \<longrightarrow>
      length (filter (\<lambda>n. parent n = None) nl) = 1 \<and>
      (\<forall>i<length nl. parent_walk nl (length nl) i = Some 0)) \<and>
   (solve P start goal rnd = Some (Inr (True, P1)) \<longrightarrow>
      length (filter (\<lambda>n. parent n = None) (node_list_' P1)) = 1 \<and>
      (\<forall>i<length (node_list_' P1).
         parent_walk (node_list_' P1) (length (node_list_' P1)) i = Some 0))"
proof (intro conjI impI)
  assume a: "0 \<le> expand_dist_' P \<and>
    solve_loop P goal rnd 0 (unat (max_sampling_num_' P))
      ([\<lparr>state = start, parent = None, cost = 0\<rparr>], []) = Inr (nl, gi)"
  have "tree_inv P start (fst ([\<lparr>state = start, parent = None, cost = 0\<rparr>], []::nat list))"
    by (simp add: tree_inv_root)
  from solve_loop_inv [OF conjunct1 [OF a] this conjunct2 [OF a] ] have "tree_inv P start nl"
    by simp
  from tree_inv_well_formed [OF this]
  show "length (filter (\<lambda>n. parent n = None) nl) = 1"
    "\<forall>i<length nl. parent_walk nl (length nl) i = Some 0"
    by (simp_all add: well_formed_tree_def)
next
  assume "solve P start goal rnd = Some (Inr (True, P1))"
  from solve_success_path [OF this] have "tree_inv P start (node_list_' P1)"
    by blast
  from tree_inv_well_formed [OF this]
  show "length (filter (\<lambda>n. parent n = None) (node_list_' P1)) = 1"
    "\<forall>i<length (node_list_' P1).
         parent_walk (node_list_' P1) (length (node_list_' P1)) i = Some 0"
    by (simp_all add: well_formed_tree_def)
qed

section \<open>Example runs\<close>

lemma informed_example_fields:
  "goal_sampling_rate_' informed_example = 0" "expand_dist_' informed_example = 2"
  "max_sampling_num_' informed_example = 2" "R_' informed_example = 10"
  "goal_region_radius_' informed_example = 1"
  "getDim (constraint_' informed_example) = 2"
  "checkConstraintType (constraint_' informed_example) x = FREE"
  "checkCollision (constraint_' informed_example) a b = True"
  by (simp_all add: informed_example_def free_space_def)

lemma ln_2_ge_half: "1 / 2 \<le> ln (2::real)"
proof -
  have "ln (1 / 2 :: real) \<le> 1 / 2 - 1"
    by (rule ln_le_minus_one) simp
  moreover have "ln (1 / 2 :: real) = - ln 2"
    by (simp add: ln_div)
  ultimately show ?thesis by simp
qed

lemma example_radius: "5 \<le> 10 * (ln (2::real) / 2) powr (1 / 2)"
proof -
  have "sqrt (1 / 4) \<le> sqrt (ln (2::real) / 2)"
    using ln_2_ge_half by (intro real_sqrt_le_mono) simp
  moreover have "sqrt (1 / 4 :: real) = 1 / 2"
    by (simp add: real_sqrt_divide)
  moreover have "(ln (2::real) / 2) powr (1 / 2) = sqrt (ln 2 / 2)"
    using ln_2_ge_half by (intro powr_half_sqrt) simp
  ultimately show ?thesis by simp
qed

lemma example_near1:
  "findNearNodes informed_example t [n] = []"
  by (simp add: findNearNodes_def informed_example_fields not_less distanceFrom_nonneg)

lemma example_near2:
  "findNearNodes informed_example \<lparr>state = [2, 0], parent = p, cost = c\<rparr>
     [\<lparr>state = [0, 0], parent = None, cost = 0\<rparr>, \<lparr>state = [1, 0], parent = Some 0, cost = 1\<rparr>]
   = [0, 1]"
proof -
  have "(2::real) < 10 * (ln 2 / 2) powr (1 / 2)" "(1::real) < 10 * (ln 2 / 2) powr (1 / 2)"
    using example_radius by simp_all
  then show ?thesis
    by (simp add: findNearNodes_def informed_example_fields distanceFrom_axis upt_rec numeral_2_eq_2)
qed

lemma example_iteration0:
  "solve_iteration informed_example [2, 0] (1 / 2, [1, 0])
     ([\<lparr>state = [0, 0], parent = None, cost = 0\<rparr>], []) =
   Inr ([\<lparr>state = [0, 0], parent = None, cost = 0\<rparr>, \<lparr>state = [1, 0], parent = Some 0, cost = 1\<rparr>], [])"
  by (simp add: solve_iteration_def best_cost_of_def informed_example_fields example_near1
      getNearestNodeIndex_def generateSteerNode_def steer_state_def chooseParentNode_def
      distanceFrom_axis DBL_MAX_def Let_def)

lemma example_iteration1:
  "solve_iteration informed_example [2, 0] (1 / 2, [2, 0])
     ([\<lparr>state = [0, 0], parent = None, cost = 0\<rparr>, \<lparr>state = [1, 0], parent = Some 0, cost = 1\<rparr>], []) =
   Inr (example_result, [2])"
  by (simp add: solve_iteration_def best_cost_of_def informed_example_fields example_near2
      getNearestNodeIndex_def generateSteerNode_def steer_state_def chooseParentNode_def
      distanceFrom_axis DBL_MAX_def Let_def example_result_def)

lemma example_loop:
  "solve_loop informed_example [2, 0] rnd_example 0 (unat (max_sampling_num_' informed_example))
     ([\<lparr>state = [0, 0], parent = None, cost = 0\<rparr>], []) = Inr (example_result, [2])"
proof -
  have "unat (max_sampling_num_' informed_example) = Suc (Suc 0)"
    by (simp add: informed_example_fields)
  then show ?thesis
    by (simp add: rnd_example_def example_iteration0 example_iteration1)
qed

lemma example_best: "nat (getBestNodeIndex [2, 0] 2 example_result) = Suc 0"
  "\<not> getBestNodeIndex [2, 0] 2 example_result < 0"
  by (simp_all add: getBestNodeIndex_def example_result_def distanceFrom_axis DBL_MAX_def Let_def)

lemma example_path: "result_loop example_result (Suc 0) [ [2, 0] ] = Some [ [0, 0], [1, 0], [2, 0] ]"
proof -
  have "result_loop example_result 0 [ [1, 0], [2, 0] ] = Some [ [0, 0], [1, 0], [2, 0] ]"
    by (subst result_loop.simps) (simp add: example_result_def Let_def)
  then show ?thesis
    by (subst result_loop.simps) (simp add: example_result_def Let_def)
qed

lemma example_solve:
  "solve informed_example [0, 0] [2, 0] rnd_example =
     Some (Inr (True, informed_example\<lparr>result_' := [ [0, 0], [1, 0], [2, 0] ], result_cost_' := 2,
                        node_list_' := example_result\<rparr>))"
proof -
  have "state (example_result ! Suc 0) = [1, 0]" "cost (example_result ! Suc 0) = 1"
    by (simp_all add: example_result_def)
  then show ?thesis
    using example_loop
    by (simp add: solve_def informed_example_fields example_best example_path distanceFrom_axis
        Let_def)
qed

lemma rrt_wall_solve:
  "RRT_solve rrt_wall [0, 0] [3, 0] [(1 / 2, [1, 0])] =
     Some (True, rrt_wall\<lparr>result_' := [ [0, 0], [1, 0], [3, 0] ]\<rparr>)"
  by (simp add: RRT_solve_def rrt_wall_fields RRT_getNearestNodeIndex_def
      RRT_generateSteerNode_def steer_state_def RRT_checkCollision_segment rrt_wall_segments
      distanceFrom_axis DBL_MAX_def Let_def)

theorem C4_path_endpoints_witness:
  "(\<exists>P1. RRT_solve rrt_wall [0, 0] [3, 0] [(1 / 2, [1, 0])] = Some (True, P1) \<and>
      result_' P1 \<noteq> [] \<and> hd (result_' P1) = [0, 0] \<and> last (result_' P1) = [3, 0]) \<and>
   (\<exists>Q1. solve informed_example [0, 0] [2, 0] rnd_example = Some (Inr (True, Q1)) \<and>
      result_' Q1 \<noteq> [] \<and> hd (result_' Q1) = [0, 0] \<and> last (result_' Q1) = [2, 0])"
  using C4_path_endpoints [of rrt_wall "[0, 0]" "[3, 0]" "[(1 / 2, [1, 0])]"
      "rrt_wall\<lparr>result_' := [ [0, 0], [1, 0], [3, 0] ]\<rparr>"
      informed_example rnd_example
      "informed_example\<lparr>result_' := [ [0, 0], [1, 0], [2, 0] ], result_cost_' := 2,
                        node_list_' := example_result\<rparr>"]
    C4_path_endpoints [of rrt_wall "[0, 0]" "[2, 0]" "[(1 / 2, [1, 0])]"
      "rrt_wall\<lparr>result_' := [ [0, 0], [1, 0], [3, 0] ]\<rparr>"
      informed_example rnd_example
      "informed_example\<lparr>result_' := [ [0, 0], [1, 0], [2, 0] ], result_cost_' := 2,
                        node_list_' := example_result\<rparr>"]
    rrt_wall_solve example_solve
  by simp

theorem C1_path_segments_witness:
  "(\<exists>ps. ps \<noteq> [] \<and> [ [0, 0], [1, 0], [3, 0] ] = ps @ [ [3, 0] ] \<and>
         successively (RRT_segment rrt_wall) ps) \<and>
   (\<exists>ps. ps \<noteq> [] \<and>
         [ [0, 0], [1, 0], [2, 0] ] = ps @ (if last ps \<noteq> [2, 0] then [ [2, 0] ] else []) \<and>
         successively (\<lambda>a b. checkCollision (constraint_' informed_example) a b \<or>
                               checkCollision (constraint_' informed_example) b a) ps)"
  using C1_path_segments [of rrt_wall "[0, 0]" "[3, 0]" "[(1 / 2, [1, 0])]"
      "rrt_wall\<lparr>result_' := [ [0, 0], [1, 0], [3, 0] ]\<rparr>"
      informed_example rnd_example
      "informed_example\<lparr>result_' := [ [0, 0], [1, 0], [2, 0] ], result_cost_' := 2,
                        node_list_' := example_result\<rparr>"]
    C1_path_segments [of rrt_wall "[0, 0]" "[2, 0]" "[(1 / 2, [1, 0])]"
      "rrt_wall\<lparr>result_' := [ [0, 0], [1, 0], [3, 0] ]\<rparr>"
      informed_example rnd_example
      "informed_example\<lparr>result_' := [ [0, 0], [1, 0], [2, 0] ], result_cost_' := 2,
                        node_list_' := example_result\<rparr>"]
    rrt_wall_solve example_solve
  by simp

theorem C9_tree_well_formed_witness:
  "length (filter (\<lambda>n. parent n = None) example_result) = 1 \<and>
   parent_walk example_result 3 0 = Some 0 \<and>
   parent_walk example_result 3 1 = Some 0 \<and>
   parent_walk example_result 3 2 = Some 0"
proof -
  have len: "length example_result = 3"
    by (simp add: example_result_def)
  from C9_tree_well_formed [of informed_example "[2, 0]" rnd_example "[0, 0]" example_result "[2]"
      "informed_example\<lparr>result_' := [ [0, 0], [1, 0], [2, 0] ], result_cost_' := 2,
                        node_list_' := example_result\<rparr>"]
    example_loop example_solve
  have one: "length (filter (\<lambda>n. parent n = None) example_result) = 1"
    and walk: "\<forall>i<length example_result.
                 parent_walk example_result (length example_result) i = Some 0"
    by (simp_all add: informed_example_fields)
  from walk [rule_format, of 0] walk [rule_format, of 1] walk [rule_format, of 2] one
  show ?thesis
    by (simp add: len)
qed

section \<open>Further facts on failed and unfinished calls\<close>

text \<open>
  While every sample is discarded, the sampling loop of RRT does not return, whatever
  the budget.
\<close>

lemma RRT_solve_loop_discarding:
  "\<forall>d\<in>set draws. RRT_discarded P d \<Longrightarrow> RRT_solve_loop P goal draws nl cnt = None"
proof (induction draws)
  case Nil
  then show ?case by simp
next
  case (Cons d draws)
  obtain u x where d: "d = (u, x)" by (cases d)
  from Cons.prems have "goal_sampling_rate_' P < u \<and> checkConstraintType (constraint_' P) x = NOENTRY"
    by (simp add: d RRT_discarded_def)
  moreover from Cons have "RRT_solve_loop P goal draws nl cnt = None"
    by simp
  ultimately show ?case by (simp add: d)
qed

text \<open>A failed solve of Informed RRT* leaves an empty result path.\<close>

lemma solve_failed_clears_result:
  assumes "solve P start goal rnd = Some (Inr (False, P1))"
  shows "result_' P1 = []"
proof -
  let ?loop = "solve_loop P goal rnd 0 (unat (max_sampling_num_' P))
        ([\<lparr>state = start, parent = None, cost = 0\<rparr>], [])"
  have dims: "\<not> (length start \<noteq> length goal \<or> length start < 2)"
  proof
    assume "length start \<noteq> length goal \<or> length start < 2"
    then have "solve P start goal rnd = Some (Inl InvalidArgument)"
      by (simp add: solve_def)
    with assms show False by simp
  qed
  show ?thesis
  proof (cases ?loop)
    case (Inl e)
    with assms dims show ?thesis by (simp add: solve_def)
  next
    case (Inr s)
    obtain nl gi where s: "s = (nl, gi)" by (cases s)
    show ?thesis
    proof (cases "getBestNodeIndex goal (expand_dist_' P) nl < 0")
      case True
      with assms dims Inr have "P1 = P\<lparr>result_' := []\<rparr>"
        by (simp add: solve_def s Let_def)
      then show ?thesis by simp
    next
      case False
      with assms dims Inr show ?thesis
        by (simp add: solve_def s Let_def split: option.splits)
    qed
  qed
qed

text \<open>
  With a budget of 0 the test \<^verbatim>\<open>max_sampling_num_ == sampling_cnt\<close>, made after the
  increment, is not met at the first counted pass: the loop goes on.
\<close>

lemma RRT_solve_loop_zero_budget:
  "RRT_solve_loop (rrt_wall\<lparr>max_sampling_num_' := 0\<rparr>) [9, 0] [(1 / 2, [1, 0])]
     [RRT_Node [0, 0] None] 0 = None"
proof -
  have "RRT_segment (rrt_wall\<lparr>max_sampling_num_' := 0\<rparr>) [0, 0] [1, 0]"
    by (simp add: RRT_segment_points rrt_wall_fields state_add_def state_sub_def state_mul_def)
  then show ?thesis
    by (simp add: rrt_wall_fields RRT_getNearestNodeIndex_def
        RRT_generateSteerNode_def steer_state_def RRT_checkCollision_segment
        distanceFrom_axis DBL_MAX_def Let_def)
qed

text \<open>
  The angular decomposition of the steering on an example: from the origin towards
  \<open>(3, 4)\<close> by the distance 1.
\<close>

lemma distanceFrom_3_4: "distanceFrom [0, 0] [3, 4] = 5"
proof -
  have "sqrt 25 = sqrt (5\<^sup>2)" by simp
  also have "\<dots> = 5" by (simp only: real_sqrt_abs)
  finally show ?thesis by (simp add: distanceFrom_def)
qed

lemma steer_state_example: "steer_state 2 [0, 0] [3, 4] 1 = [3 / 5, 4 / 5]"
proof -
  have "sqrt (1 + (4 / 3)\<^sup>2) = sqrt ((5 / 3)\<^sup>2)"
    by (simp add: power2_eq_square)
  also have "\<dots> = 5 / 3"
    by (simp only: real_sqrt_abs)
  finally have s: "sqrt (1 + (4 / 3)\<^sup>2) = 5 / 3" .
  have t: "sin (arctan (4 / 3)) = 4 / 5" "cos (arctan (4 / 3)) = 3 / 5"
    by (simp_all add: sin_arctan cos_arctan s)
  have a: "atan2 4 3 = arctan (4 / 3)"
    by (simp add: atan2_def)
  have "steer_loop (Suc 0) [0, 0] [3, 4] 1 [0, 0] = [3 / 5, 4 / 5]"
    by (simp add: a t Let_def)
  then show ?thesis
    by (simp add: steer_state_def distanceFrom_3_4)
qed

end
